theory Spec2Isabelle
  imports Main "HOL-Library.Multiset"
begin

section \<open>The index generator of the request handler\<close>

text \<open>
  JavaScript numbers are IEEE 754 binary64 values. The handler gives the generator 0 and
  \<^verbatim>\<open>maxAssetLinks\<close>, an integer by section 6 of the spec, and the generator only adds:
  the numbers that occur are integers that binary64 represents, and an infinity once a sum
  overflows. \<open>Finite n\<close> is the double whose value is the integer \<open>n\<close>; the two zeros are
  not told apart.

  From \<open>2 ^ (52 + e)\<close> to \<open>2 ^ (53 + e)\<close> the doubles are the multiples of \<open>2 ^ e\<close>, which
  is what \<open>quantum\<close> computes from the magnitude. \<open>to_double\<close> rounds an integer to the
  nearest double, a tie to the one with the even significand, and to an infinity when the
  result reaches \<open>2 ^ 1024\<close>; \<open>js_add\<close> is the addition \<^verbatim>\<open>+\<close> of two such numbers and
  \<open>js_less\<close> the comparison \<^verbatim>\<open><\<close>.
\<close>

datatype number = Finite int | Pos_Infinity | Neg_Infinity | Not_a_Number

function quantum :: "int \<Rightarrow> int" where
  "quantum n = (if n < 2 ^ 53 then 1 else 2 * quantum (n div 2))"
  by pat_completeness auto
termination
  by (relation "measure nat") auto

declare quantum.simps [simp del]

definition round_even :: "int \<Rightarrow> int \<Rightarrow> int" where
  "round_even q x =
     (let d = x div q; r = x mod q
      in if 2 * r < q \<or> (2 * r = q \<and> even d) then d * q else (d + 1) * q)"

definition to_double :: "int \<Rightarrow> number" where
  "to_double x =
     (let r = round_even (quantum \<bar>x\<bar>) x
      in if 2 ^ 1024 \<le> r then Pos_Infinity
         else if r \<le> - (2 ^ 1024) then Neg_Infinity
         else Finite r)"

fun js_add :: "number \<Rightarrow> number \<Rightarrow> number" where
  "js_add (Finite a) (Finite b) = to_double (a + b)"
| "js_add Not_a_Number y = Not_a_Number"
| "js_add x Not_a_Number = Not_a_Number"
| "js_add Pos_Infinity Neg_Infinity = Not_a_Number"
| "js_add Neg_Infinity Pos_Infinity = Not_a_Number"
| "js_add Pos_Infinity y = Pos_Infinity"
| "js_add Neg_Infinity y = Neg_Infinity"
| "js_add (Finite a) y = y"

fun js_less :: "number \<Rightarrow> number \<Rightarrow> bool" where
  "js_less (Finite a) (Finite b) = (a < b)"
| "js_less Not_a_Number y = False"
| "js_less x Not_a_Number = False"
| "js_less x Neg_Infinity = False"
| "js_less Pos_Infinity y = False"
| "js_less x Pos_Infinity = True"
| "js_less Neg_Infinity y = True"

text \<open>
  \<^verbatim>\<open>nextIndexGenerator(initialIndex, step)\<close> of lib/request-handler.js returns a closure over
  the mutable variable \<^verbatim>\<open>index\<close>. The closure is modelled by the record of what it
  captures; a call returns the value handed out together with the updated closure. The
  arguments are given as the integers the caller writes, which JavaScript reads as the
  nearest doubles.
\<close>

record index_gen =
  index :: number
  step :: number

definition nextIndexGenerator :: "int \<Rightarrow> int \<Rightarrow> index_gen" where
  "nextIndexGenerator initialIndex stp = \<lparr> index = to_double initialIndex, step = to_double stp \<rparr>"

definition nextIndex :: "index_gen \<Rightarrow> number \<times> index_gen" where
  "nextIndex g = (let pastIndex = index g in (pastIndex, g\<lparr> index := js_add (index g) (step g) \<rparr>))"

text \<open>The values handed out by the first \<open>n\<close> calls, in call order.\<close>

fun nextIndex_calls :: "nat \<Rightarrow> index_gen \<Rightarrow> number list" where
  "nextIndex_calls 0 g = []"
| "nextIndex_calls (Suc n) g = (case nextIndex g of (i, g') \<Rightarrow> i # nextIndex_calls n g')"

section \<open>Preload hints of the primary fragment\<close>

text \<open>
  \<^verbatim>\<open>LinkHeader.parse\<close> belongs to the npm package http-link-header, not to this
  repository: the parsed references are taken as they come out of it. A reference has a
  \<^verbatim>\<open>uri\<close> and possibly a \<^verbatim>\<open>rel\<close>.
\<close>

record link_ref =
  rel :: "string option"
  uri :: string

text \<open>JavaScript's \<^verbatim>\<open>String.prototype.indexOf\<close>: the first position of the needle, or -1.\<close>

fun indexOf_from :: "nat \<Rightarrow> string \<Rightarrow> string \<Rightarrow> int" where
  "indexOf_from i [] needle = (if needle = [] then int i else -1)"
| "indexOf_from i (c # cs) needle =
     (if take (length needle) (c # cs) = needle then int i
      else indexOf_from (Suc i) cs needle)"

definition indexOf :: "string \<Rightarrow> string \<Rightarrow> int" where
  "indexOf s needle = indexOf_from 0 s needle"

text \<open>
  \<^verbatim>\<open>headers.host\<close> is \<open>None\<close> when the request has no host header; an empty string is
  falsy in JavaScript as well.
\<close>

definition getCrossOriginHeader :: "string \<Rightarrow> string option \<Rightarrow> string" where
  "getCrossOriginHeader fragmentUrl host =
     (case host of
        None \<Rightarrow> ''''
      | Some h \<Rightarrow>
          if h \<noteq> '''' \<and> indexOf fragmentUrl (''://'' @ h) < 0 then ''crossorigin'' else '''')"

text \<open>\<^verbatim>\<open>Array.prototype.join(',')\<close>.\<close>

fun join_comma :: "string list \<Rightarrow> string" where
  "join_comma [] = ''''"
| "join_comma [x] = x"
| "join_comma (x # y # ys) = x @ '','' @ join_comma (y # ys)"

text \<open>\<^verbatim>\<open>!xs[0]\<close>: the first element is missing or is the empty string.\<close>

definition first_falsy :: "string list \<Rightarrow> bool" where
  "first_falsy xs = (case xs of [] \<Rightarrow> True | x # _ \<Rightarrow> x = '''')"

text \<open>The bodies of the two \<^verbatim>\<open>forEach\<close> loops, which push onto \<^verbatim>\<open>assetsToPreload\<close>.\<close>

definition push_style :: "string list \<Rightarrow> string \<Rightarrow> string list" where
  "push_style assetsToPreload u =
     assetsToPreload @ [''<'' @ u @ ''>; rel=\"preload\"; as=\"style\"; nopush'']"

definition push_script :: "string option \<Rightarrow> string list \<Rightarrow> string \<Rightarrow> string list" where
  "push_script host assetsToPreload u =
     (let crossOrigin = getCrossOriginHeader u host
      in assetsToPreload @ [''<'' @ u @ ''>; rel=\"preload\"; as=\"script\"; nopush; '' @ crossOrigin])"

text \<open>
  A JavaScript object with string values keeps its keys in insertion order: an association
  list. \<open>set_prop\<close> is the assignment \<^verbatim>\<open>obj[k] = v\<close>, \<open>Object_assign\<close> is
  \<^verbatim>\<open>Object.assign(target, source)\<close>.
\<close>

type_synonym headers = "(string \<times> string) list"

definition get_prop :: "headers \<Rightarrow> string \<Rightarrow> string option" where
  "get_prop obj k = map_of obj k"

fun set_prop :: "string \<Rightarrow> string \<Rightarrow> headers \<Rightarrow> headers" where
  "set_prop k v [] = [(k, v)]"
| "set_prop k v ((k', v') # obj) =
     (if k = k' then (k, v) # obj else (k', v') # set_prop k v obj)"

definition Object_assign :: "headers \<Rightarrow> headers \<Rightarrow> headers" where
  "Object_assign target source = foldl (\<lambda>t (k, v). set_prop k v t) target source"

text \<open>The incoming request; \<^verbatim>\<open>headers\<close> is \<open>None\<close> when the object has no such property.\<close>

record request =
  req_headers :: "headers option"

definition request_host :: "request \<Rightarrow> string option" where
  "request_host req = (case req_headers req of None \<Rightarrow> None | Some hs \<Rightarrow> get_prop hs ''host'')"

text \<open>
  \<^verbatim>\<open>getAssetsToPreload({ link }, { headers = {} })\<close>. \<open>parse\<close> stands for
  \<^verbatim>\<open>LinkHeader.parse\<close> followed by the selection of \<^verbatim>\<open>refs\<close>.
\<close>

definition getAssetsToPreload :: "(string \<Rightarrow> link_ref list) \<Rightarrow> string \<Rightarrow> request \<Rightarrow> string" where
  "getAssetsToPreload parse link req =
     (let refs = parse link;
          scriptRefs = map uri (filter (\<lambda>r. rel r = Some ''fragment-script'') refs);
          styleRefs = map uri (filter (\<lambda>r. rel r = Some ''stylesheet'') refs)
      in if first_falsy scriptRefs \<and> first_falsy styleRefs then ''''
         else join_comma
                (foldl (push_script (request_host req)) (foldl push_style [] styleRefs) scriptRefs))"

section \<open>The request handler\<close>

text \<open>
  \<^verbatim>\<open>processRequest(options, request, response)\<close> of lib/request-handler.js registers
  callbacks and returns; everything else happens when a promise settles or a stream or a
  fragment emits an event. The handler is therefore modelled as a transition function:
  \<open>handle\<close> takes the state the closures share and one event of the environment, and
  returns the new state with the calls the handler made, in order. An event for which no
  listener is registered (a stream event before the processor exists, a second
  \<^verbatim>\<open>finish\<close>, a promise settling twice) leaves the state as it is. The source throws
  nowhere itself; exceptions of the collaborators inside the callbacks are not modelled.
\<close>

text \<open>
  Modelled from the spec: the constant \<^verbatim>\<open>TEMPLATE_NOT_FOUND\<close> is exported by
  lib/fetch-template.js, which is not among the sources; the spec names it as the code of the
  error with which \<^verbatim>\<open>fetchTemplate\<close> may fail. Its value is kept symbolic.
\<close>

datatype error_code = TEMPLATE_NOT_FOUND | Other_code string

text \<open>
  An error object: \<^verbatim>\<open>err.code\<close>, and \<^verbatim>\<open>err.presentable\<close> when it is a string
  (\<^verbatim>\<open>typeof err.presentable === 'string'\<close>).
\<close>

record err =
  code :: "error_code option"
  presentable :: "string option"

record attributes =
  primary :: bool
  url :: string

record fragment =
  fid :: nat
  attributes :: attributes

datatype fragment_event =
    Ev_start
  | Ev_response nat headers
  | Ev_end nat
  | Ev_error err
  | Ev_timeout
  | Ev_fallback err
  | Ev_warn err

fun event_name :: "fragment_event \<Rightarrow> string" where
  "event_name Ev_start = ''start''"
| "event_name (Ev_response statusCode hs) = ''response''"
| "event_name (Ev_end n) = ''end''"
| "event_name (Ev_error e) = ''error''"
| "event_name Ev_timeout = ''timeout''"
| "event_name (Ev_fallback e) = ''fallback''"
| "event_name (Ev_warn e) = ''warn''"

definition FRAGMENT_EVENTS :: "string list" where
  "FRAGMENT_EVENTS = [''start'', ''response'', ''end'', ''error'', ''timeout'', ''fallback'', ''warn'']"

type_synonym page_context = "(string \<times> string) list"
type_synonym template = "string list"

text \<open>
  The \<^verbatim>\<open>once\<close> listeners the handler puts on a fragment: the seven that re-emit an event
  under the prefix \<^verbatim>\<open>fragment:\<close>, and the three of \<^verbatim>\<open>handlePrimaryFragment\<close>. The list
  in the state keeps them in the order of registration; a listener leaves it when it fires.
\<close>

datatype listener =
    Reemit fragment string
  | Primary_response fragment
  | Primary_fallback fragment
  | Primary_error fragment

fun listener_fragment :: "listener \<Rightarrow> fragment" where
  "listener_fragment (Reemit f n) = f"
| "listener_fragment (Primary_response f) = f"
| "listener_fragment (Primary_fallback f) = f"
| "listener_fragment (Primary_error f) = f"

fun listener_event :: "listener \<Rightarrow> string" where
  "listener_event (Reemit f n) = n"
| "listener_event (Primary_response f) = ''response''"
| "listener_event (Primary_fallback f) = ''fallback''"
| "listener_event (Primary_error f) = ''error''"

fun is_head_listener :: "listener \<Rightarrow> bool" where
  "is_head_listener (Reemit f n) = False"
| "is_head_listener (Primary_response f) = True"
| "is_head_listener (Primary_fallback f) = True"
| "is_head_listener (Primary_error f) = True"

text \<open>What the handler does, as seen from outside: the events it emits and its calls.\<close>

datatype action =
    Emit_start
  | Emit_context_error err
  | Emit_error err
  | Emit_response nat headers
  | Emit_end nat
  | Emit_fragment string attributes fragment_event
  | WriteHead nat headers
  | Pipe
  | Body_bytes nat
  | Response_end string
  | Meter_end
  | Write_after_end
  | ProcessTemplate index_gen page_context
  | Write_tokens template

text \<open>
  What the environment does: promises settle, the processor and the fragments emit, a write
  of the Content-Length Meter to the response fails.
\<close>

datatype event =
    Context_settled "err + page_context"
  | Template_settled "err + template"
  | Fragment_found fragment
  | Fragment_emits nat fragment_event
  | Processor_finish
  | Processor_error err
  | Processor_data nat
  | Processor_end
  | Downstream_fails err

record options =
  filterResponseHeaders :: "(attributes \<Rightarrow> headers \<Rightarrow> headers) option"
  maxAssetLinks :: int
  LinkHeader_parse :: "string \<Rightarrow> link_ref list"
  the_request :: request

record handler_state =
  shouldWriteHead :: bool
  responseHeaders :: headers
  statusCode :: nat
  contextPromise :: "page_context option"
  templatePromise :: "(err + template) option"
  wired :: bool
  listeners :: "listener list"
  finish_pending :: bool
  error_pending :: bool
  piped :: bool
  meter_count :: nat
  meter_ended :: bool
  response_bytes :: nat
  response_ended :: bool

definition baseline_headers :: headers where
  "baseline_headers =
     [(''Cache-Control'', ''no-cache, no-store, must-revalidate''),
      (''Pragma'', ''no-cache''),
      (''Content-Type'', ''text/html'')]"

text \<open>
  The state when \<^verbatim>\<open>processRequest\<close> returns; \<open>sc\<close> is \<^verbatim>\<open>response.statusCode\<close> as the
  caller left it (0 stands for a falsy value).
\<close>

definition initial_state :: "nat \<Rightarrow> handler_state" where
  "initial_state sc =
     \<lparr> shouldWriteHead = True, responseHeaders = baseline_headers, statusCode = sc,
       contextPromise = None, templatePromise = None, wired = False, listeners = [],
       finish_pending = False, error_pending = False, piped = False,
       meter_count = 0, meter_ended = False, response_bytes = 0, response_ended = False \<rparr>"

text \<open>
  Modelled from the spec: lib/streams/content-length-stream.js and Node's \<^verbatim>\<open>pipe\<close> are not
  among the sources. By section 4.1 of the spec the Content-Length Meter forwards every chunk
  unchanged, accumulates its byte count, and on close invokes its completion callback with the
  total; the callback the handler passes emits \<^verbatim>\<open>end\<close>. A closed meter takes no more
  bytes, and the end of the meter ends the response it is piped into. If the write to the
  response fails, the counter is still delivered with the bytes passed: the meter closes and
  invokes the callback. The error goes upstream unchanged, where it shows as the
  \<^verbatim>\<open>error\<close> event of the processor, the event \<open>Processor_error\<close> of the environment.
  The handler itself puts no listener on the response.
\<close>

definition response_write :: "nat \<Rightarrow> handler_state \<Rightarrow> handler_state" where
  "response_write n s = (if response_ended s then s else s\<lparr> response_bytes := response_bytes s + n \<rparr>)"

definition response_end :: "string \<Rightarrow> handler_state \<Rightarrow> handler_state" where
  "response_end body s = (response_write (length body) s)\<lparr> response_ended := True \<rparr>"

definition meter_end :: "handler_state \<Rightarrow> handler_state \<times> action list" where
  "meter_end s =
     (if meter_ended s then (s, [])
      else if piped s
        then (response_end '''' (s\<lparr> meter_ended := True \<rparr>), [Emit_end (meter_count s), Response_end ''''])
        else (s\<lparr> meter_ended := True \<rparr>, [Emit_end (meter_count s)]))"

definition meter_fail :: "handler_state \<Rightarrow> handler_state \<times> action list" where
  "meter_fail s =
     (if meter_ended s then (s, [])
      else (s\<lparr> meter_ended := True \<rparr>, [Emit_end (meter_count s)]))"

definition meter_write :: "nat \<Rightarrow> handler_state \<Rightarrow> handler_state \<times> action list" where
  "meter_write n s =
     (if meter_ended s then (s, [Write_after_end])
      else (response_write n (s\<lparr> meter_count := meter_count s + n \<rparr>), [Body_bytes n]))"

text \<open>\<^verbatim>\<open>resultStream.pipe(contentLengthStream).pipe(response)\<close>.\<close>

definition pipe_result :: "handler_state \<Rightarrow> handler_state \<times> action list" where
  "pipe_result s =
     (if meter_ended s then (response_end '''' (s\<lparr> piped := True \<rparr>), [Pipe, Response_end ''''])
      else (s\<lparr> piped := True \<rparr>, [Pipe]))"

text \<open>\<^verbatim>\<open>response.writeHead(statusCode, headers)\<close>.\<close>

definition writeHead :: "nat \<Rightarrow> handler_state \<Rightarrow> handler_state \<times> action list" where
  "writeHead sc s = (s\<lparr> statusCode := sc \<rparr>, [WriteHead sc (responseHeaders s)])"

definition handleError :: "err \<Rightarrow> handler_state \<Rightarrow> handler_state \<times> action list" where
  "handleError e s =
     (if shouldWriteHead s then
        (let s1 = s\<lparr> shouldWriteHead := False \<rparr>;
             sc = (if code e = Some TEMPLATE_NOT_FOUND then 404 else 500);
             (s2, a2) = writeHead sc s1;
             body = (case presentable e of Some p \<Rightarrow> p | None \<Rightarrow> '''')
         in (response_end body s2, [Emit_error e] @ a2 @ [Response_end body]))
      else
        (let (s1, a1) = meter_end s in (s1, [Emit_error e, Meter_end] @ a1)))"

text \<open>
  The three listeners of \<^verbatim>\<open>handlePrimaryFragment\<close> and the re-emitting listener.
  \<open>map_response_headers\<close> is what the listener of \<^verbatim>\<open>response\<close> does to
  \<^verbatim>\<open>responseHeaders\<close> before it emits and writes the head.
\<close>

definition map_response_headers :: "options \<Rightarrow> fragment \<Rightarrow> headers \<Rightarrow> headers \<Rightarrow> headers" where
  "map_response_headers opts f hs rh =
     (let rh1 = (case filterResponseHeaders opts of
                   Some flt \<Rightarrow> Object_assign rh (flt (attributes f) hs)
                 | None \<Rightarrow> rh);
          rh2 = (case get_prop hs ''location'' of
                   Some loc \<Rightarrow> if loc \<noteq> '''' then set_prop ''location'' loc rh1 else rh1
                 | None \<Rightarrow> rh1);
          preloadAssets = (case get_prop hs ''link'' of
                   Some link \<Rightarrow>
                     if link \<noteq> '''' then getAssetsToPreload (LinkHeader_parse opts) link (the_request opts)
                     else ''''
                 | None \<Rightarrow> '''')
      in if preloadAssets \<noteq> '''' then set_prop ''link'' preloadAssets rh2 else rh2)"

definition on_primary_response ::
  "options \<Rightarrow> fragment \<Rightarrow> nat \<Rightarrow> headers \<Rightarrow> handler_state \<Rightarrow> handler_state \<times> action list" where
  "on_primary_response opts f sc hs s =
     (let s1 = s\<lparr> responseHeaders := map_response_headers opts f hs (responseHeaders s) \<rparr>;
          (s2, a2) = writeHead sc s1;
          (s3, a3) = pipe_result s2
      in (s3, [Emit_response sc (responseHeaders s1)] @ a2 @ a3))"

definition on_primary_fallback :: "err \<Rightarrow> handler_state \<Rightarrow> handler_state \<times> action list" where
  "on_primary_fallback e s =
     (let (s1, a1) = writeHead 500 s;
          (s2, a2) = pipe_result s1
      in (s2, [Emit_error e] @ a1 @ a2))"

definition on_primary_error :: "err \<Rightarrow> handler_state \<Rightarrow> handler_state \<times> action list" where
  "on_primary_error e s =
     (let (s1, a1) = writeHead 500 s
      in (response_end '''' s1, [Emit_error e] @ a1 @ [Response_end '''']))"

fun run_listener ::
  "options \<Rightarrow> fragment_event \<Rightarrow> listener \<Rightarrow> handler_state \<Rightarrow> handler_state \<times> action list" where
  "run_listener opts ev (Reemit f n) s = (s, [Emit_fragment (''fragment:'' @ n) (attributes f) ev])"
| "run_listener opts (Ev_response sc hs) (Primary_response f) s = on_primary_response opts f sc hs s"
| "run_listener opts (Ev_fallback e) (Primary_fallback f) s = on_primary_fallback e s"
| "run_listener opts (Ev_error e) (Primary_error f) s = on_primary_error e s"
| "run_listener opts ev l s = (s, [])"

fun run_listeners ::
  "options \<Rightarrow> fragment_event \<Rightarrow> listener list \<Rightarrow> handler_state \<Rightarrow> handler_state \<times> action list" where
  "run_listeners opts ev [] s = (s, [])"
| "run_listeners opts ev (l # ls) s =
     (let (s1, a1) = run_listener opts ev l s;
          (s2, a2) = run_listeners opts ev ls s1
      in (s2, a1 @ a2))"

definition listens :: "nat \<Rightarrow> fragment_event \<Rightarrow> listener \<Rightarrow> bool" where
  "listens i ev l = (fid (listener_fragment l) = i \<and> listener_event l = event_name ev)"

definition handlePrimaryFragment :: "fragment \<Rightarrow> handler_state \<Rightarrow> handler_state" where
  "handlePrimaryFragment f s =
     (if \<not> shouldWriteHead s then s
      else s\<lparr> shouldWriteHead := False,
              listeners := listeners s @ [Primary_response f, Primary_fallback f, Primary_error f] \<rparr>)"

text \<open>
  The callback of \<^verbatim>\<open>Promise.all([templatePromise, contextPromise]).then\<close>: it runs once, when
  both promises are fulfilled.
\<close>

definition wire :: "options \<Rightarrow> page_context \<Rightarrow> template \<Rightarrow> handler_state \<Rightarrow> handler_state \<times> action list" where
  "wire opts ctx t s =
     (s\<lparr> wired := True, finish_pending := True, error_pending := True \<rparr>,
      [ProcessTemplate (nextIndexGenerator 0 (maxAssetLinks opts)) ctx, Write_tokens t])"

fun handle :: "options \<Rightarrow> handler_state \<Rightarrow> event \<Rightarrow> handler_state \<times> action list" where
  "handle opts s (Context_settled r) =
     (if contextPromise s \<noteq> None then (s, [])
      else
        (let (ctx, a0) = (case r of Inl e \<Rightarrow> ([], [Emit_context_error e]) | Inr c \<Rightarrow> (c, []));
             s1 = s\<lparr> contextPromise := Some ctx \<rparr>
         in case templatePromise s of
              Some (Inr t) \<Rightarrow> (let (s2, a2) = wire opts ctx t s1 in (s2, a0 @ a2))
            | _ \<Rightarrow> (s1, a0)))"
| "handle opts s (Template_settled r) =
     (if templatePromise s \<noteq> None then (s, [])
      else
        (let s1 = s\<lparr> templatePromise := Some r \<rparr>
         in case r of
              Inl e \<Rightarrow> handleError e s1
            | Inr t \<Rightarrow> (case contextPromise s of
                          Some ctx \<Rightarrow> wire opts ctx t s1
                        | None \<Rightarrow> (s1, []))))"
| "handle opts s (Fragment_found f) =
     (if \<not> wired s then (s, [])
      else
        (let s1 = s\<lparr> listeners := listeners s @ map (Reemit f) FRAGMENT_EVENTS \<rparr>
         in (if primary (attributes f) then handlePrimaryFragment f s1 else s1, [])))"
| "handle opts s (Fragment_emits i ev) =
     (let fire = filter (listens i ev) (listeners s);
          s1 = s\<lparr> listeners := filter (\<lambda>l. \<not> listens i ev l) (listeners s) \<rparr>
      in run_listeners opts ev fire s1)"
| "handle opts s Processor_finish =
     (if \<not> (wired s \<and> finish_pending s) then (s, [])
      else
        (let s1 = s\<lparr> finish_pending := False \<rparr>;
             sc = (if statusCode s1 \<noteq> 0 then statusCode s1 else 200)
         in if shouldWriteHead s1 then
              (let s2 = s1\<lparr> shouldWriteHead := False \<rparr>;
                   (s3, a3) = writeHead sc s2;
                   (s4, a4) = pipe_result s3
               in (s4, [Emit_response sc (responseHeaders s2)] @ a3 @ a4))
            else (s1, [])))"
| "handle opts s (Processor_error e) =
     (if \<not> (wired s \<and> error_pending s) then (s, [])
      else handleError e (s\<lparr> error_pending := False \<rparr>))"
| "handle opts s (Processor_data n) =
     (if piped s then meter_write n s else (s, []))"
| "handle opts s Processor_end =
     (if piped s then meter_end s else (s, []))"
| "handle opts s (Downstream_fails e) =
     (if piped s then meter_fail s else (s, []))"

fun run :: "options \<Rightarrow> handler_state \<Rightarrow> event list \<Rightarrow> handler_state \<times> action list" where
  "run opts s [] = (s, [])"
| "run opts s (e # es) =
     (let (s1, a1) = handle opts s e;
          (s2, a2) = run opts s1 es
      in (s2, a1 @ a2))"

text \<open>
  A whole request: \<^verbatim>\<open>processRequest\<close> emits \<^verbatim>\<open>start\<close> and returns, then the events
  of the environment arrive.
\<close>

definition processRequest :: "options \<Rightarrow> nat \<Rightarrow> event list \<Rightarrow> handler_state \<times> action list" where
  "processRequest opts sc es = (let (s, a) = run opts (initial_state sc) es in (s, Emit_start # a))"

section \<open>The client runtime\<close>

text \<open>
  src/pipe.js is an immediately invoked function whose local variables (\<^verbatim>\<open>placeholders\<close>,
  \<^verbatim>\<open>starts\<close>, \<^verbatim>\<open>initState\<close>, \<^verbatim>\<open>hooks\<close>) are shared by the functions it returns.
  The variables, the document the functions read and change, and the callbacks they have
  handed out but that have not run yet make up the state.

  A hook is the identifier of the callback installed; 0 is \<^verbatim>\<open>noop\<close>. The hooks and the
  loader are callbacks of the page: they are taken to return without throwing.
  \<^verbatim>\<open>loadCSS\<close>, \<^verbatim>\<open>addPerfEntry\<close> and \<^verbatim>\<open>getEntries\<close> touch none of the variables above
  and are left out.
\<close>

subsection \<open>The document\<close>

text \<open>
  The document is the tree of the nodes below its root element; a node has an identity, is a
  script element (with or without the attribute \<^verbatim>\<open>data-pipe\<close>), another element, or a node
  that is no element (\<^verbatim>\<open>nodeType\<close> other than 1), and has its child nodes in order. The
  identities are taken to be distinct. \<open>document\<close> holds the child nodes of the root
  element; \<open>detached\<close> holds the subtrees that have been removed from their parent, which
  the variables of the runtime may still refer to.
\<close>

datatype node_kind = Script bool | Element | Other

datatype dom = Node nat node_kind "dom list"

fun ident :: "dom \<Rightarrow> nat" where
  "ident (Node n k ts) = n"

fun kids :: "dom \<Rightarrow> dom list" where
  "kids (Node n k ts) = ts"

record dom_state =
  document :: "dom list"
  detached :: "dom list"

text \<open>The nodes of a forest and its script elements, in tree order.\<close>

fun ids_of :: "dom list \<Rightarrow> nat list" where
  "ids_of [] = []"
| "ids_of (Node n k ts # rest) = n # ids_of ts @ ids_of rest"

fun scripts_of :: "dom list \<Rightarrow> (nat \<times> bool) list" where
  "scripts_of [] = []"
| "scripts_of (Node n k ts # rest) =
     (case k of Script p \<Rightarrow> [(n, p)] | _ \<Rightarrow> []) @ scripts_of ts @ scripts_of rest"

text \<open>\<^verbatim>\<open>removeAttribute('data-pipe')\<close> on the node \<open>x\<close>.\<close>

fun clear_pipe :: "nat \<Rightarrow> dom list \<Rightarrow> dom list" where
  "clear_pipe x [] = []"
| "clear_pipe x (Node n k ts # rest) =
     Node n (if n = x then (case k of Script p \<Rightarrow> Script False | _ \<Rightarrow> k) else k) (clear_pipe x ts)
     # clear_pipe x rest"

text \<open>The subtree at a node, the node that follows it among its siblings.\<close>

fun subtree :: "nat \<Rightarrow> dom list \<Rightarrow> dom option" where
  "subtree x [] = None"
| "subtree x (Node n k ts # rest) =
     (if n = x then Some (Node n k ts)
      else case subtree x ts of Some t \<Rightarrow> Some t | None \<Rightarrow> subtree x rest)"

fun next_in :: "nat \<Rightarrow> dom list \<Rightarrow> nat option" where
  "next_in x [] = None"
| "next_in x (Node n k ts # rest) =
     (if n = x then (case rest of [] \<Rightarrow> None | t # ts' \<Rightarrow> Some (ident t))
      else case next_in x ts of Some m \<Rightarrow> Some m | None \<Rightarrow> next_in x rest)"

text \<open>Taking the subtree at \<open>x\<close> out of a forest; putting a tree in front of the node \<open>r\<close>.\<close>

fun remove_node :: "nat \<Rightarrow> dom list \<Rightarrow> dom list" where
  "remove_node x [] = []"
| "remove_node x (Node n k ts # rest) =
     (if n = x then rest else Node n k (remove_node x ts) # remove_node x rest)"

fun insert_node :: "dom \<Rightarrow> nat \<Rightarrow> dom list \<Rightarrow> dom list" where
  "insert_node t r [] = []"
| "insert_node t r (Node n k ts # rest) =
     (if n = r then t # Node n k ts # rest
      else Node n k (insert_node t r ts) # insert_node t r rest)"

text \<open>The parser appends a node to the children of \<open>p\<close>.\<close>

fun append_child :: "nat \<Rightarrow> dom \<Rightarrow> dom list \<Rightarrow> dom list" where
  "append_child p t [] = []"
| "append_child p t (Node n k ts # rest) =
     (if n = p then Node n k (ts @ [t]) # rest
      else Node n k (append_child p t ts) # append_child p t rest)"

fun first_some :: "'a option list \<Rightarrow> 'a option" where
  "first_some [] = None"
| "first_some (Some x # xs) = Some x"
| "first_some (None # xs) = first_some xs"

text \<open>
  What the runtime asks of a node. \<^verbatim>\<open>parentNode\<close> is \<^verbatim>\<open>null\<close> for the root of a detached
  subtree and for a node that is nowhere; a child of the root element has that element as its
  parent. \<^verbatim>\<open>nextSibling\<close> is \<^verbatim>\<open>null\<close> for a last child and for the root of a detached
  subtree.
\<close>

definition has_parent :: "dom_state \<Rightarrow> nat \<Rightarrow> bool" where
  "has_parent d x =
     (x \<in> set (ids_of (document d)) \<or> x \<in> set (ids_of (concat (map kids (detached d)))))"

definition next_sibling :: "dom_state \<Rightarrow> nat \<Rightarrow> nat option" where
  "next_sibling d x =
     (case next_in x (document d) of
        Some m \<Rightarrow> Some m
      | None \<Rightarrow> first_some (map (\<lambda>t. next_in x (kids t)) (detached d)))"

definition find_node :: "dom_state \<Rightarrow> nat \<Rightarrow> dom option" where
  "find_node d x =
     (case subtree x (document d) of Some t \<Rightarrow> Some t | None \<Rightarrow> subtree x (detached d))"

text \<open>The nodes below \<open>x\<close>.\<close>

definition descendants :: "dom_state \<Rightarrow> nat \<Rightarrow> nat list" where
  "descendants d x = (case find_node d x of Some t \<Rightarrow> ids_of (kids t) | None \<Rightarrow> [])"

text \<open>
  \<^verbatim>\<open>x.parentNode.removeChild(x)\<close> for a node that has a parent: the subtree leaves its
  place and stays around, detached.
\<close>

definition remove_child :: "dom_state \<Rightarrow> nat \<Rightarrow> dom_state" where
  "remove_child d x =
     (case find_node d x of
        None \<Rightarrow> d
      | Some t \<Rightarrow>
          \<lparr> document = remove_node x (document d),
            detached = map (\<lambda>u. Node (ident u) (case u of Node n k ts \<Rightarrow> k) (remove_node x (kids u)))
                         (detached d) @ [t] \<rparr>)"

text \<open>
  \<^verbatim>\<open>r.parentNode.insertBefore(x, r)\<close> for a node \<open>r\<close> that has a parent and a node \<open>x\<close>
  that does not contain it: \<open>x\<close> leaves its place, if it has one, and is put in front of
  \<open>r\<close>. Moving a node in front of itself changes nothing.
\<close>

definition insert_before :: "dom_state \<Rightarrow> nat \<Rightarrow> nat \<Rightarrow> dom_state" where
  "insert_before d x r =
     (if x = r then d
      else case find_node d x of
        None \<Rightarrow> d
      | Some t \<Rightarrow>
          \<lparr> document = insert_node t r (remove_node x (document d)),
            detached = map (\<lambda>u. Node (ident u) (case u of Node n k ts \<Rightarrow> k) (insert_node t r (kids u)))
                         (remove_node x (detached d)) \<rparr>)"

subsection \<open>The state and the calls\<close>

datatype hook_name = OnStart | OnBeforeInit | OnAfterInit | OnDone

type_synonym pipe_attrs = "(string \<times> string) list"

record pipe_state =
  placeholders :: "nat \<Rightarrow> nat option"
  starts :: "nat \<Rightarrow> nat option"
  page :: dom_state
  initState :: "nat list"
  hooks :: "hook_name \<Rightarrow> nat"
  readyState :: "string option"
  pending_modules :: "(pipe_attrs \<times> nat) list"
  pending_inits :: "(pipe_attrs \<times> nat) list"

text \<open>
  The calls the runtime makes: the hooks, the AMD loader, the initialiser of a fragment.
  \<open>Throws\<close> stands for an exception that leaves the function, \<open>Never_returns\<close> for a
  call of the runtime that does not come back.
\<close>

datatype pipe_call =
    Call_onStart nat pipe_attrs nat
  | Call_onBeforeInit nat pipe_attrs nat
  | Call_onAfterInit nat pipe_attrs nat
  | Call_onDone nat
  | Require string
  | Require_callback string
  | Call_init nat
  | Throws
  | Never_returns

text \<open>
  What an initialiser returns decides \<^verbatim>\<open>isPromise\<close>: a thenable, \<^verbatim>\<open>null\<close> (for which
  \<^verbatim>\<open>typeof\<close> is \<^verbatim>\<open>'object'\<close> and the access to \<^verbatim>\<open>then\<close> throws), anything else, or it
  throws itself. What the loader hands to the callback of \<^verbatim>\<open>end\<close> is a function or not.
\<close>

datatype init_result = Returns_thenable | Returns_null | Returns_other | Init_throws

datatype module_kind = Not_a_function | Init_function init_result

text \<open>
  The calls of the page and of the browser: the three markers the server writes, a hook setter,
  the loader delivering the module to the \<open>k\<close>-th waiting callback, the \<open>k\<close>-th waiting
  promise settling, the parser appending a node to the root element or to the node given, the
  document changing \<^verbatim>\<open>readyState\<close>.
\<close>

datatype pipe_op =
    Placeholder nat
  | Start nat "string option" pipe_attrs
  | End nat "string option" pipe_attrs
  | Assign_hook hook_name nat
  | Module_loaded nat module_kind
  | Promise_settled nat
  | Node_parsed "nat option" nat node_kind
  | Set_readyState "string option"

text \<open>The truth value JavaScript gives to an argument that is missing or a string.\<close>

definition js_truthy :: "string option \<Rightarrow> bool" where
  "js_truthy v = (case v of None \<Rightarrow> False | Some s \<Rightarrow> s \<noteq> '''')"

subsection \<open>The functions of the runtime\<close>

text \<open>
  \<^verbatim>\<open>scripts\<close> is the live collection of the script elements of the document, in tree
  order. \<^verbatim>\<open>currentScript()\<close> walks it from the last element down, removes the attribute
  from the first element that has it and returns that element; it returns \<^verbatim>\<open>undefined\<close>
  when there is none. \<open>last_piped\<close> walks the reversed collection.
\<close>

fun last_piped :: "(nat \<times> bool) list \<Rightarrow> nat option" where
  "last_piped [] = None"
| "last_piped ((n, p) # xs) = (if p then Some n else last_piped xs)"

definition currentScript :: "pipe_state \<Rightarrow> nat option \<times> pipe_state" where
  "currentScript s =
     (case last_piped (rev (scripts_of (document (page s)))) of
        None \<Rightarrow> (None, s)
      | Some n \<Rightarrow> (Some n, s\<lparr> page := (page s)\<lparr> document := clear_pipe n (document (page s)) \<rparr> \<rparr>))"

definition placeholder :: "nat \<Rightarrow> pipe_state \<Rightarrow> pipe_state \<times> pipe_call list" where
  "placeholder i s =
     (let (c, s1) = currentScript s in (s1\<lparr> placeholders := (placeholders s1)(i := c) \<rparr>, []))"

definition start :: "nat \<Rightarrow> string option \<Rightarrow> pipe_attrs \<Rightarrow> pipe_state \<Rightarrow> pipe_state \<times> pipe_call list" where
  "start i script attrs s =
     (let (c, s1) = currentScript s;
          s2 = s1\<lparr> starts := (starts s1)(i := c) \<rparr>
      in if js_truthy script then
           (s2\<lparr> initState := initState s2 @ [i] \<rparr>,
            [Call_onStart (hooks s2 OnStart) attrs i, Require (the script)])
         else (s2, []))"

definition ready :: "pipe_state \<Rightarrow> bool" where
  "ready s = (readyState s = Some ''complete'' \<or> readyState s = Some ''interactive'')"

definition fireDone :: "pipe_state \<Rightarrow> pipe_state \<times> pipe_call list" where
  "fireDone s =
     (if length (initState s) = 0 \<and> readyState s \<noteq> None \<and> readyState s \<noteq> Some '''' \<and>
         (readyState s = Some ''complete'' \<or> readyState s = Some ''interactive'')
      then (s, [Call_onDone (hooks s OnDone)])
      else (s, []))"

text \<open>\<^verbatim>\<open>handlerFn\<close> of \<^verbatim>\<open>doInit\<close>; \<^verbatim>\<open>pop\<close> leaves an empty array as it is.\<close>

definition handlerFn :: "pipe_attrs \<Rightarrow> nat \<Rightarrow> pipe_state \<Rightarrow> pipe_state \<times> pipe_call list" where
  "handlerFn attrs i s =
     (let s1 = s\<lparr> initState := butlast (initState s) \<rparr>;
          (s2, a2) = fireDone s1
      in (s2, [Call_onAfterInit (hooks s1 OnAfterInit) attrs i] @ a2))"

definition doInit :: "init_result \<Rightarrow> pipe_attrs \<Rightarrow> nat \<Rightarrow> pipe_state \<Rightarrow> pipe_state \<times> pipe_call list" where
  "doInit r attrs i s =
     (let a0 = [Call_onBeforeInit (hooks s OnBeforeInit) attrs i, Call_init i]
      in case r of
           Init_throws \<Rightarrow> (s, a0 @ [Throws])
         | Returns_null \<Rightarrow> (s, a0 @ [Throws])
         | Returns_thenable \<Rightarrow> (s\<lparr> pending_inits := pending_inits s @ [(attrs, i)] \<rparr>, a0)
         | Returns_other \<Rightarrow> (let (s1, a1) = handlerFn attrs i s in (s1, a0 @ a1)))"

text \<open>The callback \<^verbatim>\<open>end\<close> passes to \<^verbatim>\<open>require\<close>.\<close>

definition module_callback :: "module_kind \<Rightarrow> pipe_attrs \<Rightarrow> nat \<Rightarrow> pipe_state \<Rightarrow> pipe_state \<times> pipe_call list" where
  "module_callback m attrs i s =
     (case m of
        Not_a_function \<Rightarrow>
          (let s1 = s\<lparr> initState := butlast (initState s) \<rparr>;
               (s2, a2) = fireDone s1
           in (s2, [Call_onBeforeInit (hooks s1 OnBeforeInit) attrs i,
                    Call_onAfterInit (hooks s1 OnAfterInit) attrs i] @ a2))
      | Init_function r \<Rightarrow> doInit r attrs i s)"

text \<open>
  The loop of \<^verbatim>\<open>end\<close> that moves everything from the start marker to the end marker in
  front of the placeholder \<open>p\<close>. Each round takes the next node, reads its
  \<^verbatim>\<open>nextSibling\<close> (which throws when there is no next node) and inserts the node before
  the placeholder (which throws when the placeholder has no parent, or when the node contains
  it); the loop ends with the node that is the end marker \<open>e\<close>. The result is the document
  and whether the loop ended without an exception. The loop need not end: with two nodes
  in front of a placeholder that comes before the end marker it goes round for ever, and
  the function has no value.
\<close>

partial_function (option) move_nodes ::
  "nat \<Rightarrow> nat option \<Rightarrow> nat option \<Rightarrow> dom_state \<Rightarrow> (bool \<times> dom_state) option" where
  "move_nodes p e nextNode d =
     (case nextNode of
        None \<Rightarrow> Some (False, d)
      | Some node \<Rightarrow>
          if \<not> has_parent d p then Some (False, d)
          else if p \<in> set (descendants d node) then Some (False, d)
          else if Some node = e then Some (True, insert_before d node p)
          else move_nodes p e (next_sibling d node) (insert_before d node p))"

declare move_nodes.simps [code]

text \<open>
  A document on which the loop does not end: the start marker 1, an element 5, the
  placeholder 9 and the end marker 2, in this order. A round puts the first node behind
  the second, and the next round puts it back.
\<close>

definition turning_page :: dom_state where
  "turning_page =
     \<lparr> document = [Node 1 (Script False) [], Node 5 Element [], Node 9 (Script False) [],
                    Node 2 (Script False) []],
       detached = [] \<rparr>"

definition turned_page :: dom_state where
  "turned_page =
     \<lparr> document = [Node 5 Element [], Node 1 (Script False) [], Node 9 (Script False) [],
                    Node 2 (Script False) []],
       detached = [] \<rparr>"

text \<open>
  The part of \<^verbatim>\<open>end\<close> that works on the document, for the placeholder \<open>pl\<close>, the start
  marker \<open>st\<close> and the end marker \<open>e\<close>, each of which may be \<^verbatim>\<open>undefined\<close>: the loop
  and the removal of the placeholder when there is one, then the removal of the start marker
  and of the end marker. Reading \<^verbatim>\<open>nextSibling\<close> or \<^verbatim>\<open>parentNode\<close> of \<^verbatim>\<open>undefined\<close>
  throws, and so does \<^verbatim>\<open>removeChild\<close> on the \<^verbatim>\<open>parentNode\<close> of a node that has none.
  The node handed to the initialiser later (the first element after the start marker) has
  no part in what follows and is not computed.
\<close>

definition end_dom ::
  "nat option \<Rightarrow> nat option \<Rightarrow> nat option \<Rightarrow> dom_state \<Rightarrow> (bool \<times> dom_state) option" where
  "end_dom pl st e d =
     (case (case pl of
              None \<Rightarrow> Some (True, d)
            | Some p \<Rightarrow>
                (case move_nodes p e st d of
                   None \<Rightarrow> None
                 | Some (ok, d1) \<Rightarrow>
                     if \<not> ok then Some (False, d1)
                     else if \<not> has_parent d1 p then Some (False, d1)
                     else Some (True, remove_child d1 p))) of
        None \<Rightarrow> None
      | Some (ok, d2) \<Rightarrow>
          if \<not> ok then Some (False, d2)
          else (case st of
                  None \<Rightarrow> Some (False, d2)
                | Some sn \<Rightarrow>
                    if \<not> has_parent d2 sn then Some (False, d2)
                    else (case e of
                            None \<Rightarrow> Some (False, remove_child d2 sn)
                          | Some en \<Rightarrow>
                              if \<not> has_parent (remove_child d2 sn) en
                              then Some (False, remove_child d2 sn)
                              else Some (True, remove_child (remove_child d2 sn) en))))"

text \<open>\<^verbatim>\<open>end(index, script, attributes)\<close>.\<close>

definition end_marker :: "nat \<Rightarrow> string option \<Rightarrow> pipe_attrs \<Rightarrow> pipe_state \<Rightarrow> pipe_state \<times> pipe_call list" where
  "end_marker i script attrs s =
     (let (e, s1) = currentScript s
      in case end_dom (placeholders s i) (starts s i) e (page s1) of
           None \<Rightarrow> (s1, [Never_returns])
         | Some (ok, d) \<Rightarrow>
             if \<not> ok then (s1\<lparr> page := d \<rparr>, [Throws])
             else if js_truthy script then
               (s1\<lparr> page := d, pending_modules := pending_modules s1 @ [(attrs, i)] \<rparr>,
                [Require_callback (the script)])
             else (s1\<lparr> page := d \<rparr>, []))"

text \<open>Taking the \<open>k\<close>-th element out of a list.\<close>

definition drop_nth :: "nat \<Rightarrow> 'a list \<Rightarrow> 'a list" where
  "drop_nth k xs = take k xs @ drop (Suc k) xs"

fun pipe_step :: "pipe_state \<Rightarrow> pipe_op \<Rightarrow> pipe_state \<times> pipe_call list" where
  "pipe_step s (Placeholder i) = placeholder i s"
| "pipe_step s (Start i script attrs) = start i script attrs s"
| "pipe_step s (End i script attrs) = end_marker i script attrs s"
| "pipe_step s (Assign_hook h cb) = (s\<lparr> hooks := (hooks s)(h := cb) \<rparr>, [])"
| "pipe_step s (Module_loaded k m) =
     (if k < length (pending_modules s) then
        (case pending_modules s ! k of
           (attrs, i) \<Rightarrow> module_callback m attrs i (s\<lparr> pending_modules := drop_nth k (pending_modules s) \<rparr>))
      else (s, []))"
| "pipe_step s (Promise_settled k) =
     (if k < length (pending_inits s) then
        (case pending_inits s ! k of
           (attrs, i) \<Rightarrow> handlerFn attrs i (s\<lparr> pending_inits := drop_nth k (pending_inits s) \<rparr>))
      else (s, []))"
| "pipe_step s (Node_parsed par n k) =
     (s\<lparr> page := (page s)\<lparr> document :=
            (case par of
               None \<Rightarrow> document (page s) @ [Node n k []]
             | Some p \<Rightarrow> append_child p (Node n k []) (document (page s))) \<rparr> \<rparr>, [])"
| "pipe_step s (Set_readyState r) = (s\<lparr> readyState := r \<rparr>, [])"

text \<open>A run of the page; nothing follows a call that does not come back.\<close>

fun pipe_run :: "pipe_state \<Rightarrow> pipe_op list \<Rightarrow> pipe_state \<times> pipe_call list" where
  "pipe_run s [] = (s, [])"
| "pipe_run s (x # xs) =
     (let (s1, a1) = pipe_step s x
      in if Never_returns \<in> set a1 then (s1, a1)
         else (let (s2, a2) = pipe_run s1 xs in (s2, a1 @ a2)))"

text \<open>The state when the script has run: nothing recorded, every hook \<^verbatim>\<open>noop\<close>.\<close>

definition pipe_initial :: "dom list \<Rightarrow> string option \<Rightarrow> pipe_state" where
  "pipe_initial doc r =
     \<lparr> placeholders = (\<lambda>i. None), starts = (\<lambda>i. None),
       page = \<lparr> document = doc, detached = [] \<rparr>, initState = [],
       hooks = (\<lambda>h. 0), readyState = r, pending_modules = [], pending_inits = [] \<rparr>"

text \<open>
  The fragments whose \<^verbatim>\<open>onStart\<close> hook has been called are the registered ones, those whose
  \<^verbatim>\<open>onAfterInit\<close> hook has been called have completed their initialisation.
\<close>

fun registered :: "pipe_call list \<Rightarrow> nat multiset" where
  "registered [] = {#}"
| "registered (Call_onStart cb attrs i # cs) = add_mset i (registered cs)"
| "registered (c # cs) = registered cs"

fun completed :: "pipe_call list \<Rightarrow> nat multiset" where
  "completed [] = {#}"
| "completed (Call_onAfterInit cb attrs i # cs) = add_mset i (completed cs)"
| "completed (c # cs) = completed cs"

fun done_called :: "pipe_call list \<Rightarrow> bool" where
  "done_called [] = False"
| "done_called (Call_onDone cb # cs) = True"
| "done_called (c # cs) = done_called cs"

text \<open>
  Modelled from the spec: the server that writes the markers is not among the sources. By
  section 6 of the spec it emits, for each fragment, \<^verbatim>\<open>start\<close> and then \<^verbatim>\<open>end\<close> with
  the matching index. \<open>matched opn ops\<close> says so for the markers that carry a script, \<open>opn\<close>
  being the indices started and not yet ended; \<open>opened\<close> is what remains open.
\<close>

fun matched :: "nat list \<Rightarrow> pipe_op list \<Rightarrow> bool" where
  "matched opn [] = True"
| "matched opn (Start i script attrs # ops) =
     matched (if js_truthy script then i # opn else opn) ops"
| "matched opn (End i script attrs # ops) =
     (if js_truthy script then i \<in> set opn \<and> matched (remove1 i opn) ops else matched opn ops)"
| "matched opn (x # ops) = matched opn ops"

fun opened :: "nat list \<Rightarrow> pipe_op list \<Rightarrow> nat list" where
  "opened opn [] = opn"
| "opened opn (Start i script attrs # ops) =
     opened (if js_truthy script then i # opn else opn) ops"
| "opened opn (End i script attrs # ops) =
     opened (if js_truthy script then remove1 i opn else opn) ops"
| "opened opn (x # ops) = opened opn ops"

text \<open>
  An operation completes an initialisation when it runs \<^verbatim>\<open>fireDone\<close>: the loader delivers
  to a waiting callback something that is no function or an initialiser that returns at once,
  or a waiting promise settles.
\<close>

fun completes :: "pipe_state \<Rightarrow> pipe_op \<Rightarrow> bool" where
  "completes s (Module_loaded k m) =
     (k < length (pending_modules s) \<and> (m = Not_a_function \<or> m = Init_function Returns_other))"
| "completes s (Promise_settled k) = (k < length (pending_inits s))"
| "completes s x = False"

text \<open>
  The invariant of the runtime: the fragments that have completed, those whose callback or
  promise is waiting and those whose end marker is still to come are among the registered
  ones, and \<^verbatim>\<open>initState\<close> holds one entry for each registered fragment that has not
  completed.
\<close>

definition pipe_inv :: "pipe_state \<Rightarrow> pipe_call list \<Rightarrow> nat list \<Rightarrow> bool" where
  "pipe_inv s tr opn =
     (completed tr + mset (map snd (pending_modules s)) + mset (map snd (pending_inits s)) + mset opn
        \<subseteq># registered tr
      \<and> length (initState s) + size (completed tr) = size (registered tr))"

section \<open>Notions used to state the properties\<close>

text \<open>A string occurs in another one.\<close>

definition occurs_in :: "string \<Rightarrow> string \<Rightarrow> bool" where
  "occurs_in needle s = (\<exists>p q. s = p @ needle @ q)"

text \<open>The preload hints, entry by entry.\<close>

definition style_hint :: "string \<Rightarrow> string" where
  "style_hint u = ''<'' @ u @ ''>; rel=\"preload\"; as=\"style\"; nopush''"

definition script_hint :: "string option \<Rightarrow> string \<Rightarrow> string" where
  "script_hint host u =
     ''<'' @ u @ ''>; rel=\"preload\"; as=\"script\"; nopush; '' @
     (if \<exists>h. host = Some h \<and> h \<noteq> '''' \<and> \<not> occurs_in (''://'' @ h) u then ''crossorigin'' else '''')"

text \<open>
  The host of a URI in the words of the spec (``the script host differs from the request
  host''): what stands between \<^verbatim>\<open>://\<close> and the next slash.
\<close>

fun after_scheme :: "string \<Rightarrow> string" where
  "after_scheme [] = []"
| "after_scheme (c # cs) = (if take 3 (c # cs) = ''://'' then drop 3 (c # cs) else after_scheme cs)"

definition uri_host :: "string \<Rightarrow> string" where
  "uri_host u = takeWhile (\<lambda>c. c \<noteq> CHR ''/'') (after_scheme u)"

text \<open>
  Reading a trace of the handler: the calls of \<^verbatim>\<open>writeHead\<close>, and what brings body bytes to
  the response or ends it. \<open>head_first\<close> says that no such action comes before the first
  \<^verbatim>\<open>writeHead\<close>.
\<close>

fun is_head :: "action \<Rightarrow> bool" where
  "is_head (WriteHead sc hs) = True"
| "is_head a = False"

fun is_body :: "action \<Rightarrow> bool" where
  "is_body Pipe = True"
| "is_body (Body_bytes n) = True"
| "is_body (Response_end b) = True"
| "is_body a = False"

definition head_count :: "action list \<Rightarrow> nat" where
  "head_count tr = length (filter is_head tr)"

fun head_first :: "action list \<Rightarrow> bool" where
  "head_first [] = True"
| "head_first (a # tr) = (if is_head a then True else if is_body a then False else head_first tr)"

fun is_end :: "action \<Rightarrow> bool" where
  "is_end (Emit_end n) = True"
| "is_end a = False"

definition end_count :: "action list \<Rightarrow> nat" where
  "end_count tr = length (filter is_end tr)"

text \<open>The bytes \<^verbatim>\<open>response.end(body)\<close> writes without the meter.\<close>

fun direct_bytes :: "action list \<Rightarrow> nat" where
  "direct_bytes [] = 0"
| "direct_bytes (Response_end b # tr) = length b + direct_bytes tr"
| "direct_bytes (a # tr) = direct_bytes tr"

text \<open>
  \<open>heads_of i es\<close> lists, in order, the events \<^verbatim>\<open>response\<close>, \<^verbatim>\<open>fallback\<close> and
  \<^verbatim>\<open>error\<close> that fragment \<open>i\<close> emits in \<open>es\<close>: the three events on which
  \<^verbatim>\<open>handlePrimaryFragment\<close> puts a listener that writes the head. \<open>one_head_event es\<close>
  singles out the runs in which no fragment emits two different ones of them.
\<close>

fun heads_of :: "nat \<Rightarrow> event list \<Rightarrow> string list" where
  "heads_of i [] = []"
| "heads_of i (Fragment_emits j ev # es) =
     (if j = i \<and> event_name ev \<in> {''response'', ''fallback'', ''error''}
      then event_name ev # heads_of i es else heads_of i es)"
| "heads_of i (e # es) = heads_of i es"

definition one_head_event :: "event list \<Rightarrow> bool" where
  "one_head_event es = (\<forall>i. length (remdups (heads_of i es)) \<le> 1)"

text \<open>The listeners of \<^verbatim>\<open>handlePrimaryFragment\<close> that have not fired yet.\<close>

definition head_listeners :: "handler_state \<Rightarrow> listener list" where
  "head_listeners s = filter is_head_listener (listeners s)"

definition some_of :: "bool \<Rightarrow> bool \<Rightarrow> bool \<Rightarrow> fragment \<Rightarrow> listener list" where
  "some_of a b c f =
     (if a then [Primary_response f] else []) @
     (if b then [Primary_fallback f] else []) @
     (if c then [Primary_error f] else [])"

text \<open>
  The invariant of the handler, for a state \<open>s\<close> reached by the events \<open>es\<close> with the trace
  \<open>tr\<close>. While the latch is set nothing has been written and no primary fragment is
  listened to. Once it is cleared, either an error or the end of the processor has written
  the head, or one primary fragment holds the three listeners, each of which writes the head
  when the fragment emits its event.
\<close>

definition claimed_by :: "fragment \<Rightarrow> handler_state \<Rightarrow> action list \<Rightarrow> event list \<Rightarrow> bool" where
  "claimed_by f s tr es =
     (\<exists>a b c. head_listeners s = some_of a b c f \<and>
        head_count tr = (if a then 0 else 1) + (if b then 0 else 1) + (if c then 0 else 1) \<and>
        (\<not> a \<longrightarrow> ''response'' \<in> set (heads_of (fid f) es)) \<and>
        (\<not> b \<longrightarrow> ''fallback'' \<in> set (heads_of (fid f) es)) \<and>
        (\<not> c \<longrightarrow> ''error'' \<in> set (heads_of (fid f) es)) \<and>
        (a \<longrightarrow> responseHeaders s = baseline_headers))"

definition handler_inv :: "handler_state \<Rightarrow> action list \<Rightarrow> event list \<Rightarrow> bool" where
  "handler_inv s tr es =
     (head_first tr \<and>
      (head_count tr = 0 \<longrightarrow> \<not> piped s \<and> \<not> response_ended s \<and> (\<forall>a \<in> set tr. \<not> is_body a)) \<and>
      (shouldWriteHead s \<longrightarrow>
         head_count tr = 0 \<and> head_listeners s = [] \<and> responseHeaders s = baseline_headers) \<and>
      (\<not> shouldWriteHead s \<longrightarrow>
         (head_count tr = 1 \<and> head_listeners s = []) \<or> (\<exists>f. claimed_by f s tr es)) \<and>
      (templatePromise s = None \<longrightarrow> shouldWriteHead s) \<and>
      (wired s \<longrightarrow> templatePromise s \<noteq> None))"

text \<open>What the actions of a listener look like: a head comes before any body action.\<close>

definition head_leads :: "action list \<Rightarrow> bool" where
  "head_leads a = (head_first a \<and> (head_count a = 0 \<longrightarrow> (\<forall>x \<in> set a. \<not> is_body x)))"

text \<open>The status codes of the heads written, in order.\<close>

fun head_statuses :: "action list \<Rightarrow> nat list" where
  "head_statuses [] = []"
| "head_statuses (WriteHead sc hs # tr) = sc # head_statuses tr"
| "head_statuses (a # tr) = head_statuses tr"

text \<open>
  The events at which the handler clears a latch that is set: a primary fragment is found,
  the processor finishes, or an error reaches \<^verbatim>\<open>handleError\<close> (the template promise is
  rejected, the processor emits \<^verbatim>\<open>error\<close>).
\<close>

fun clears :: "handler_state \<Rightarrow> event \<Rightarrow> bool" where
  "clears s (Fragment_found f) = (wired s \<and> primary (attributes f))"
| "clears s Processor_finish = (wired s \<and> finish_pending s)"
| "clears s (Processor_error e) = (wired s \<and> error_pending s)"
| "clears s (Template_settled r) = (templatePromise s = None \<and> isl r)"
| "clears s e = False"

text \<open>What \<^verbatim>\<open>filterResponseHeaders\<close> returns for a fragment; nothing when it is no function.\<close>

definition filtered :: "options \<Rightarrow> fragment \<Rightarrow> headers \<Rightarrow> headers" where
  "filtered opts f hs =
     (case filterResponseHeaders opts of None \<Rightarrow> [] | Some flt \<Rightarrow> flt (attributes f) hs)"

text \<open>
  The events at which the Content-Length Meter is closed: the processor output piped through
  it ends, a write to the response it is piped into fails, or the processor emits an error
  that reaches \<^verbatim>\<open>handleError\<close> when the latch is cleared.
\<close>

fun closes :: "handler_state \<Rightarrow> event \<Rightarrow> bool" where
  "closes s Processor_end = piped s"
| "closes s (Downstream_fails e) = piped s"
| "closes s (Processor_error e) = (wired s \<and> error_pending s \<and> \<not> shouldWriteHead s)"
| "closes s e = False"

text \<open>
  The invariant of the Content-Length Meter: \<^verbatim>\<open>end\<close> has been emitted once if the meter is
  closed and not at all otherwise, with the count the meter holds; a closed meter has been
  piped into or has been ended by \<^verbatim>\<open>handleError\<close>. And the invariant of the bytes, for
  requests that write the head once: a response that is ended and piped into has a closed
  meter, and the bytes written to the response are those the meter counted and those of the
  bodies given to \<^verbatim>\<open>response.end\<close>.
\<close>

definition meter_inv :: "handler_state \<Rightarrow> action list \<Rightarrow> bool" where
  "meter_inv s tr =
     (end_count tr = (if meter_ended s then 1 else 0) \<and>
      (\<forall>n. Emit_end n \<in> set tr \<longrightarrow> n = meter_count s) \<and>
      (meter_ended s \<longrightarrow> piped s \<or> Meter_end \<in> set tr))"

definition bytes_inv :: "handler_state \<Rightarrow> action list \<Rightarrow> bool" where
  "bytes_inv s tr =
     ((response_ended s \<and> piped s \<longrightarrow> meter_ended s) \<and>
      response_bytes s = meter_count s + direct_bytes tr)"

text \<open>
  The invariant of the wiring: a processor exists only for a template that was fetched and a
  context that is settled, and as long as there is none nothing is listened to, nothing is
  piped and the meter is open.
\<close>

definition wiring_inv :: "handler_state \<Rightarrow> bool" where
  "wiring_inv s =
     ((wired s \<longrightarrow> (\<exists>t. templatePromise s = Some (Inr t)) \<and> contextPromise s \<noteq> None) \<and>
      (\<not> wired s \<longrightarrow> \<not> piped s \<and> \<not> meter_ended s \<and> listeners s = []) \<and>
      (templatePromise s = None \<longrightarrow> shouldWriteHead s))"

text \<open>
  The invariant of the bodies given to \<^verbatim>\<open>response.end\<close>: only \<^verbatim>\<open>handleError\<close> gives
  one that is not empty, while the latch is set, and after that nothing is piped and the meter
  stays open.
\<close>

definition direct_inv :: "handler_state \<Rightarrow> action list \<Rightarrow> bool" where
  "direct_inv s tr =
     ((shouldWriteHead s \<longrightarrow> \<not> meter_ended s \<and> direct_bytes tr = 0) \<and>
      (direct_bytes tr \<noteq> 0 \<longrightarrow>
         \<not> shouldWriteHead s \<and> head_listeners s = [] \<and> \<not> piped s \<and> \<not> meter_ended s \<and>
         (wired s \<longrightarrow> \<not> error_pending s) \<and>
         (\<not> wired s \<longrightarrow> (\<exists>e. templatePromise s = Some (Inl e)))))"

section \<open>Index allocation\<close>

text \<open>Up to \<open>2 ^ 53\<close> every integer is a double, and a sum that stays there is exact.\<close>

lemma to_double_exact:
  assumes "0 \<le> x" "x \<le> 2 ^ 53"
  shows "to_double x = Finite x"
proof (cases "x = 2 ^ 53")
  case True
  have "to_double (2 ^ 53) = Finite (2 ^ 53)" by code_simp
  with True show ?thesis by simp
next
  case False
  with assms have lt: "\<bar>x\<bar> < 2 ^ 53" by simp
  have q: "quantum \<bar>x\<bar> = 1" using lt by (subst quantum.simps) simp
  have r: "round_even 1 x = x" by (simp add: round_even_def)
  have b: "\<not> (2::int) ^ 1024 \<le> x" "\<not> x \<le> - ((2::int) ^ 1024)"
    using assms by simp_all
  show ?thesis using q r b by (simp add: to_double_def)
qed

lemma nextIndex_calls_exact:
  assumes "0 \<le> i" "0 \<le> m" "i + (int n - 1) * m \<le> 2 ^ 53"
  shows "nextIndex_calls n \<lparr> index = Finite i, step = Finite m \<rparr> =
           map (\<lambda>k. Finite (i + int k * m)) [0..<n]"
  using assms
proof (induction n arbitrary: i)
  case 0
  show ?case by simp
next
  case (Suc n)
  have up: "[0..<Suc n] = 0 # map Suc [0..<n]"
    by (simp add: upt_conv_Cons map_Suc_upt del: upt_Suc)
  show ?case
  proof (cases n)
    case 0
    then show ?thesis by (simp add: nextIndex_def)
  next
    case (Suc n')
    have mn: "m \<le> int n * m" using Suc.prems(2) Suc by (simp add: mult_le_cancel_right1)
    then have le: "i + m \<le> 2 ^ 53" using Suc.prems(3) by simp
    have nn: "0 \<le> i + m" using Suc.prems(1,2) by simp
    have add: "to_double (i + m) = Finite (i + m)"
      using to_double_exact [OF nn le] .
    have b: "(i + m) + (int n - 1) * m \<le> 2 ^ 53"
      using Suc.prems(3) by (simp add: algebra_simps)
    have "nextIndex_calls n \<lparr> index = Finite (i + m), step = Finite m \<rparr> =
        map (\<lambda>k. Finite ((i + m) + int k * m)) [0..<n]"
      using Suc.IH [OF nn Suc.prems(2) b] .
    then show ?thesis
      unfolding up by (simp add: nextIndex_def add algebra_simps comp_def del: upt_Suc)
  qed
qed

lemma sorted_multiples:
  assumes "1 \<le> (s::int)"
  shows "sorted_wrt js_less (map (\<lambda>k. Finite (int k * s)) [0..<n])"
proof -
  have "\<And>a b. a < b \<Longrightarrow> int a * s < int b * s"
    using assms by (simp add: mult_strict_right_mono)
  then show ?thesis
    by (simp add: sorted_wrt_map sorted_wrt_iff_nth_less)
qed

text \<open>
  Claim C7, as the code has it. For every integer \<open>maxAssetLinks \<ge> 1\<close>, the generator built
  by \<^verbatim>\<open>nextIndexGenerator(0, maxAssetLinks)\<close> hands out \<open>k * maxAssetLinks\<close> on its
  \<open>k\<close>-th call (counting from 0) as long as the values handed out stay within \<open>2 ^ 53\<close>,
  the range in which the sums of JavaScript numbers are exact: the first \<open>n\<close> calls return
  \<open>0, step, 2 * step, \<dots>\<close>, a strictly increasing sequence, when
  \<open>(n - 1) * maxAssetLinks \<le> 2 ^ 53\<close>.
\<close>

theorem nextIndex_sequence:
  assumes "1 \<le> maxLinks" and "(int n - 1) * maxLinks \<le> 2 ^ 53"
  shows "nextIndex_calls n (nextIndexGenerator 0 maxLinks) = map (\<lambda>k. Finite (int k * maxLinks)) [0..<n]
       \<and> (\<forall>k<n. nextIndex_calls n (nextIndexGenerator 0 maxLinks) ! k = Finite (int k * maxLinks))
       \<and> sorted_wrt js_less (nextIndex_calls n (nextIndexGenerator 0 maxLinks))"
proof (cases "n \<le> 1")
  case True
  then have "n = 0 \<or> n = 1" by auto
  moreover have "to_double 0 = Finite 0" by (rule to_double_exact) simp_all
  ultimately show ?thesis by (auto simp: nextIndexGenerator_def nextIndex_def)
next
  case False
  then have "maxLinks \<le> (int n - 1) * maxLinks"
    using assms(1) by (simp add: mult_le_cancel_right1)
  then have m: "maxLinks \<le> 2 ^ 53" using assms(2) by simp
  have g: "nextIndexGenerator 0 maxLinks = \<lparr> index = Finite 0, step = Finite maxLinks \<rparr>"
    using to_double_exact [of 0] to_double_exact [of maxLinks] assms(1) m
    by (simp add: nextIndexGenerator_def)
  have eq: "nextIndex_calls n (nextIndexGenerator 0 maxLinks) = map (\<lambda>k. Finite (int k * maxLinks)) [0..<n]"
    unfolding g using nextIndex_calls_exact [of 0 maxLinks n] assms by simp
  show ?thesis
    using sorted_multiples [OF assms(1), of n] by (simp add: eq)
qed

theorem nextIndex_sequence_witness:
  "(1::int) \<le> 3 \<and> (int 4 - 1) * 3 \<le> (2::int) ^ 53
   \<and> nextIndex_calls 4 (nextIndexGenerator 0 3) = [Finite 0, Finite 3, Finite 6, Finite 9]
   \<and> sorted_wrt js_less (nextIndex_calls 4 (nextIndexGenerator 0 3))"
proof -
  have h: "(1::int) \<le> 3" "(int 4 - 1) * 3 \<le> (2::int) ^ 53" by simp_all
  have "map (\<lambda>k. Finite (int k * 3)) [0..<4] = [Finite 0, Finite 3, Finite 6, Finite 9]"
    by (simp add: upt_rec)
  then show ?thesis using nextIndex_sequence [OF h] h by simp
qed

text \<open>
  Against the claim as the spec words it, which bounds neither \<open>maxAssetLinks\<close> nor \<open>k\<close>:
  with \<open>maxAssetLinks = 2 ^ 53 - 1\<close> the sum \<open>3 * maxAssetLinks\<close> is no double, and the
  call number 3 returns the double next to it.
\<close>

theorem nextIndex_sequence_counterexample:
  "(1::int) \<le> 9007199254740991
   \<and> nextIndex_calls 4 (nextIndexGenerator 0 9007199254740991) ! 3 = Finite 27021597764222972
   \<and> int 3 * 9007199254740991 = 27021597764222973
   \<and> nextIndex_calls 4 (nextIndexGenerator 0 9007199254740991) ! 3 \<noteq> Finite (int 3 * 9007199254740991)"
  by code_simp

section \<open>The invariant of the request handler\<close>

lemma head_count_append: "head_count (a @ b) = head_count a + head_count b"
  by (simp add: head_count_def)

lemma head_first_append:
  "head_first (a @ b) = (if head_count a = 0 then (\<forall>x \<in> set a. \<not> is_body x) \<and> head_first b else head_first a)"
  by (induction a) (auto simp: head_count_def)

lemma heads_of_append: "heads_of i (a @ b) = heads_of i a @ heads_of i b"
  by (induction a rule: heads_of.induct) auto

lemma handler_inv_initial: "handler_inv (initial_state sc) [] []"
  by (simp add: handler_inv_def initial_state_def head_count_def head_listeners_def)



lemma head_first_quiet: "head_count a = 0 \<Longrightarrow> \<forall>x \<in> set a. \<not> is_body x \<Longrightarrow> head_first a"
  by (induction a) (auto simp: head_count_def split: if_splits)

lemma claimed_by_mono:
  assumes c: "claimed_by f s tr es" and l: "head_listeners s' = head_listeners s"
    and r: "responseHeaders s' = responseHeaders s" and a: "head_count a = 0"
  shows "claimed_by f s' (tr @ a) (es @ [e])"
proof -
  from c obtain x y z where h: "head_listeners s = some_of x y z f"
    "head_count tr = (if x then 0 else 1) + (if y then 0 else 1) + (if z then 0 else 1)"
    "\<not> x \<longrightarrow> ''response'' \<in> set (heads_of (fid f) es)"
    "\<not> y \<longrightarrow> ''fallback'' \<in> set (heads_of (fid f) es)"
    "\<not> z \<longrightarrow> ''error'' \<in> set (heads_of (fid f) es)"
    "x \<longrightarrow> responseHeaders s = baseline_headers"
    unfolding claimed_by_def by blast
  have "head_listeners s' = some_of x y z f \<and>
        head_count (tr @ a) = (if x then 0 else 1) + (if y then 0 else 1) + (if z then 0 else 1) \<and>
        (\<not> x \<longrightarrow> ''response'' \<in> set (heads_of (fid f) (es @ [e]))) \<and>
        (\<not> y \<longrightarrow> ''fallback'' \<in> set (heads_of (fid f) (es @ [e]))) \<and>
        (\<not> z \<longrightarrow> ''error'' \<in> set (heads_of (fid f) (es @ [e]))) \<and>
        (x \<longrightarrow> responseHeaders s' = baseline_headers)"
    using h l r a by (simp add: head_count_append heads_of_append)
  then show ?thesis unfolding claimed_by_def by blast
qed

text \<open>A step that writes no head and leaves latch and listeners alone.\<close>

lemma inv_nohead_step:
  assumes inv: "handler_inv s tr es"
    and st: "shouldWriteHead s' = shouldWriteHead s" "head_listeners s' = head_listeners s"
      "responseHeaders s' = responseHeaders s"
    and bd: "head_count tr = 0 \<longrightarrow>
          piped s' = piped s \<and> response_ended s' = response_ended s \<and> (\<forall>x \<in> set a. \<not> is_body x)"
    and tp: "templatePromise s' = None \<longrightarrow> shouldWriteHead s'" "wired s' \<longrightarrow> templatePromise s' \<noteq> None"
    and a: "head_count a = 0"
  shows "handler_inv s' (tr @ a) (es @ [e])"
proof -
  have cl: "\<And>f. claimed_by f s tr es \<Longrightarrow> claimed_by f s' (tr @ a) (es @ [e])"
    using claimed_by_mono [OF _ st(2) st(3) a(1)] .
  have i1: "head_first tr"
    and i2: "head_count tr = 0 \<longrightarrow> \<not> piped s \<and> \<not> response_ended s \<and> (\<forall>a \<in> set tr. \<not> is_body a)"
    and i3: "shouldWriteHead s \<longrightarrow>
         head_count tr = 0 \<and> head_listeners s = [] \<and> responseHeaders s = baseline_headers"
    and i4: "\<not> shouldWriteHead s \<longrightarrow>
         (head_count tr = 1 \<and> head_listeners s = []) \<or> (\<exists>f. claimed_by f s tr es)"
    using inv unfolding handler_inv_def by blast+
  have c1: "head_first (tr @ a)"
  proof (cases "head_count tr = 0")
    case True
    with bd a have "head_first a" by (simp add: head_first_quiet)
    with True i2 show ?thesis by (simp add: head_first_append)
  next
    case False
    with i1 show ?thesis by (simp add: head_first_append)
  qed
  have c2: "head_count (tr @ a) = 0 \<longrightarrow>
      \<not> piped s' \<and> \<not> response_ended s' \<and> (\<forall>x \<in> set (tr @ a). \<not> is_body x)"
    using i2 a st bd by (auto simp: head_count_append)
  have c3: "shouldWriteHead s' \<longrightarrow>
         head_count (tr @ a) = 0 \<and> head_listeners s' = [] \<and> responseHeaders s' = baseline_headers"
    using i3 a st by (simp add: head_count_append)
  have c4: "\<not> shouldWriteHead s' \<longrightarrow>
         (head_count (tr @ a) = 1 \<and> head_listeners s' = []) \<or> (\<exists>f. claimed_by f s' (tr @ a) (es @ [e]))"
  proof
    assume "\<not> shouldWriteHead s'"
    then have "\<not> shouldWriteHead s" using st by simp
    with i4 have "(head_count tr = 1 \<and> head_listeners s = []) \<or> (\<exists>f. claimed_by f s tr es)" by simp
    then show "(head_count (tr @ a) = 1 \<and> head_listeners s' = []) \<or> (\<exists>f. claimed_by f s' (tr @ a) (es @ [e]))"
    proof
      assume "head_count tr = 1 \<and> head_listeners s = []"
      then show ?thesis using a st by (simp add: head_count_append)
    next
      assume "\<exists>f. claimed_by f s tr es"
      then obtain f where "claimed_by f s tr es" ..
      then have "claimed_by f s' (tr @ a) (es @ [e])" by (rule cl)
      then show ?thesis by blast
    qed
  qed
  show ?thesis
    unfolding handler_inv_def using c1 c2 c3 c4 tp by blast
qed

lemma response_write_fields [simp]:
  "shouldWriteHead (response_write n s) = shouldWriteHead s \<and>
     responseHeaders (response_write n s) = responseHeaders s \<and>
     statusCode (response_write n s) = statusCode s \<and>
     contextPromise (response_write n s) = contextPromise s \<and>
     templatePromise (response_write n s) = templatePromise s \<and>
     wired (response_write n s) = wired s \<and>
     listeners (response_write n s) = listeners s \<and>
     finish_pending (response_write n s) = finish_pending s \<and>
     error_pending (response_write n s) = error_pending s \<and>
     piped (response_write n s) = piped s \<and>
     meter_count (response_write n s) = meter_count s \<and>
     meter_ended (response_write n s) = meter_ended s \<and>
     response_ended (response_write n s) = response_ended s"
  by (simp add: response_write_def)

lemma response_write_bytes [simp]:
  "response_bytes (response_write n s) = (if response_ended s then response_bytes s else response_bytes s + n)"
  by (simp add: response_write_def)

lemma response_end_fields [simp]:
  "shouldWriteHead (response_end b s) = shouldWriteHead s \<and>
     responseHeaders (response_end b s) = responseHeaders s \<and>
     statusCode (response_end b s) = statusCode s \<and>
     contextPromise (response_end b s) = contextPromise s \<and>
     templatePromise (response_end b s) = templatePromise s \<and>
     wired (response_end b s) = wired s \<and>
     listeners (response_end b s) = listeners s \<and>
     finish_pending (response_end b s) = finish_pending s \<and>
     error_pending (response_end b s) = error_pending s \<and>
     piped (response_end b s) = piped s \<and>
     meter_count (response_end b s) = meter_count s \<and>
     meter_ended (response_end b s) = meter_ended s \<and>
     response_ended (response_end b s)"
  by (simp add: response_end_def)

lemma response_end_bytes [simp]:
  "response_bytes (response_end b s) = (if response_ended s then response_bytes s else response_bytes s + length b)"
  by (simp add: response_end_def)

lemma head_listeners_response_end [simp]:
  "head_listeners (response_end b s) = head_listeners s" "head_listeners (response_write n s) = head_listeners s"
  by (simp_all add: head_listeners_def)

lemma head_listeners_cong: "listeners s' = listeners s \<Longrightarrow> head_listeners s' = head_listeners s"
  by (simp add: head_listeners_def)

lemma wire_eff:
  "wire opts ctx t s = (s', a) \<Longrightarrow>
     shouldWriteHead s' = shouldWriteHead s \<and> listeners s' = listeners s \<and>
     responseHeaders s' = responseHeaders s \<and> piped s' = piped s \<and>
     response_ended s' = response_ended s \<and> templatePromise s' = templatePromise s \<and>
     wired s' \<and>
     a = [ProcessTemplate (nextIndexGenerator 0 (maxAssetLinks opts)) ctx, Write_tokens t]"
  by (auto simp: wire_def)

lemma meter_end_eff:
  "meter_end s = (s', a) \<Longrightarrow>
     shouldWriteHead s' = shouldWriteHead s \<and> listeners s' = listeners s \<and>
     responseHeaders s' = responseHeaders s \<and> piped s' = piped s \<and>
     templatePromise s' = templatePromise s \<and> wired s' = wired s \<and> statusCode s' = statusCode s \<and>
     head_count a = 0 \<and>
     (\<not> piped s \<longrightarrow> response_ended s' = response_ended s \<and> (\<forall>x \<in> set a. \<not> is_body x))"
  by (auto simp: meter_end_def head_count_def split: if_splits)

lemma meter_write_eff:
  "meter_write n s = (s', a) \<Longrightarrow>
     shouldWriteHead s' = shouldWriteHead s \<and> listeners s' = listeners s \<and>
     responseHeaders s' = responseHeaders s \<and> piped s' = piped s \<and>
     templatePromise s' = templatePromise s \<and> wired s' = wired s \<and>
     head_count a = 0"
  by (auto simp: meter_write_def head_count_def split: if_splits)

lemma handleError_latched:
  assumes "shouldWriteHead s" "handleError e s = (s', a)"
  shows "\<not> shouldWriteHead s' \<and> listeners s' = listeners s \<and>
     responseHeaders s' = responseHeaders s \<and> piped s' = piped s \<and> response_ended s' \<and>
     templatePromise s' = templatePromise s \<and> wired s' = wired s \<and>
     a = [Emit_error e, WriteHead (if code e = Some TEMPLATE_NOT_FOUND then 404 else 500) (responseHeaders s),
          Response_end (case presentable e of Some p \<Rightarrow> p | None \<Rightarrow> [])]"
  using assms
  by (auto simp: handleError_def writeHead_def Let_def)

lemma handleError_unlatched:
  assumes "\<not> shouldWriteHead s" "handleError e s = (s', a)"
  shows "s' = fst (meter_end s) \<and> a = [Emit_error e, Meter_end] @ snd (meter_end s)"
  using assms by (auto simp: handleError_def split: prod.splits)


text \<open>A step that finds the latch set and writes the head.\<close>

lemma inv_head_step:
  assumes inv: "handler_inv s tr es" and latch: "shouldWriteHead s"
    and st: "\<not> shouldWriteHead s'" "head_listeners s' = head_listeners s"
    and tp: "templatePromise s' \<noteq> None"
    and a: "a = pre @ WriteHead sc hs # post" "head_count pre = 0" "\<forall>x \<in> set pre. \<not> is_body x"
      "head_count post = 0"
  shows "handler_inv s' (tr @ a) (es @ [e])"
proof -
  have i2: "head_count tr = 0 \<longrightarrow> \<not> piped s \<and> \<not> response_ended s \<and> (\<forall>a \<in> set tr. \<not> is_body a)"
    and i3: "shouldWriteHead s \<longrightarrow>
         head_count tr = 0 \<and> head_listeners s = [] \<and> responseHeaders s = baseline_headers"
    using inv unfolding handler_inv_def by blast+
  from i3 latch have z: "head_count tr = 0" "head_listeners s = []" by simp_all
  have hc: "head_count a = 1"
    using a by (simp add: head_count_append head_count_def)
  have "head_first (pre @ WriteHead sc hs # post)"
    using a(2,3) by (simp add: head_first_append)
  then have c1: "head_first (tr @ a)"
    using z i2 a(1) by (simp add: head_first_append)
  have c2: "head_count (tr @ a) = 1" using z hc by (simp add: head_count_append)
  show ?thesis
    unfolding handler_inv_def using c1 c2 st tp z by simp
qed

lemma inv_step_context:
  assumes inv: "handler_inv s tr es" and h: "handle opts s (Context_settled r) = (s', a)"
  shows "handler_inv s' (tr @ a) (es @ [Context_settled r])"
proof -
  have tpi: "templatePromise s = None \<longrightarrow> shouldWriteHead s" "wired s \<longrightarrow> templatePromise s \<noteq> None"
    using inv unfolding handler_inv_def by blast+
  have eff: "shouldWriteHead s' = shouldWriteHead s \<and> listeners s' = listeners s \<and>
     responseHeaders s' = responseHeaders s \<and> piped s' = piped s \<and>
     response_ended s' = response_ended s \<and> templatePromise s' = templatePromise s \<and>
     (wired s' \<longrightarrow> wired s \<or> templatePromise s \<noteq> None) \<and>
     head_count a = 0 \<and> (\<forall>x \<in> set a. \<not> is_body x)"
    using h by (auto simp: wire_def head_count_def Let_def split: if_splits sum.splits option.splits)
  show ?thesis
    using inv_nohead_step [OF inv, of s' a] eff tpi head_listeners_cong [of s' s] by auto
qed

lemma inv_step_template:
  assumes inv: "handler_inv s tr es" and h: "handle opts s (Template_settled r) = (s', a)"
  shows "handler_inv s' (tr @ a) (es @ [Template_settled r])"
proof (cases "templatePromise s \<noteq> None")
  case True
  with h have "s' = s" "a = []" by auto
  with inv_nohead_step [OF inv, of s "[]"] inv show ?thesis
    by (simp add: handler_inv_def head_count_def)
next
  case False
  then have n: "templatePromise s = None" by simp
  have latch: "shouldWriteHead s" and nw: "\<not> wired s"
    using inv n unfolding handler_inv_def by auto
  let ?s1 = "s\<lparr> templatePromise := Some r \<rparr>"
  show ?thesis
  proof (cases r)
    case (Inr t)
    have eff: "shouldWriteHead s' = shouldWriteHead s \<and> listeners s' = listeners s \<and>
       responseHeaders s' = responseHeaders s \<and> piped s' = piped s \<and>
       response_ended s' = response_ended s \<and> templatePromise s' \<noteq> None \<and>
       head_count a = 0 \<and> (\<forall>x \<in> set a. \<not> is_body x)"
      using h n Inr by (auto simp: wire_def head_count_def Let_def split: option.splits)
    show ?thesis
      using inv_nohead_step [OF inv, of s' a] eff head_listeners_cong [of s' s] by auto
  next
    case (Inl e)
    with h n have he: "handleError e ?s1 = (s', a)" by simp
    have l1: "shouldWriteHead ?s1" using latch by simp
    note eff = handleError_latched [OF l1 he]
    have inv1: "handler_inv ?s1 tr es"
      using inv latch unfolding handler_inv_def by (simp add: head_listeners_def)
    have a: "a = [Emit_error e] @ WriteHead (if code e = Some TEMPLATE_NOT_FOUND then 404 else 500) (responseHeaders ?s1)
          # [Response_end (case presentable e of Some p \<Rightarrow> p | None \<Rightarrow> [])]"
      using eff by simp
    have "handler_inv s' (tr @ a) (es @ [Template_settled r])"
      using eff by (intro inv_head_step [OF inv1 l1 _ _ _ a])
                   (simp_all add: head_count_def head_listeners_def)
    then show ?thesis .
  qed
qed

lemma inv_step_error:
  assumes inv: "handler_inv s tr es" and h: "handle opts s (Processor_error e) = (s', a)"
  shows "handler_inv s' (tr @ a) (es @ [Processor_error e])"
proof (cases "wired s \<and> error_pending s")
  case False
  with h have "s' = s" "a = []" by auto
  with inv_nohead_step [OF inv, of s "[]"] inv show ?thesis
    by (simp add: handler_inv_def head_count_def)
next
  case True
  note we = True
  let ?s1 = "s\<lparr> error_pending := False \<rparr>"
  from h True have he: "handleError e ?s1 = (s', a)" by simp
  have inv1: "handler_inv ?s1 tr es"
    using inv unfolding handler_inv_def claimed_by_def by (simp add: head_listeners_def)
  show ?thesis
  proof (cases "shouldWriteHead s")
    case True
    then have l1: "shouldWriteHead ?s1" by simp
    note eff = handleError_latched [OF l1 he]
    have a: "a = [Emit_error e] @ WriteHead (if code e = Some TEMPLATE_NOT_FOUND then 404 else 500) (responseHeaders ?s1)
          # [Response_end (case presentable e of Some p \<Rightarrow> p | None \<Rightarrow> [])]"
      using eff by simp
    have w: "templatePromise ?s1 \<noteq> None"
      using inv \<open>wired s \<and> error_pending s\<close> unfolding handler_inv_def by simp
    show ?thesis
      using eff w by (intro inv_head_step [OF inv1 l1 _ _ _ a])
                   (simp_all add: head_count_def head_listeners_def)
  next
    case False
    then have l1: "\<not> shouldWriteHead ?s1" by simp
    note eff = handleError_unlatched [OF l1 he]
    obtain s2 a2 where me: "meter_end ?s1 = (s2, a2)" by (cases "meter_end ?s1")
    note m = meter_end_eff [OF me]
    have s': "s' = s2" and a: "a = [Emit_error e, Meter_end] @ a2" using eff me by simp_all
    have i2: "head_count tr = 0 \<longrightarrow> \<not> piped s"
      and tpi: "wired s \<longrightarrow> templatePromise s \<noteq> None"
      using inv unfolding handler_inv_def by blast+
    have hc: "head_count a = 0" using a m by (simp add: head_count_def)
    show ?thesis
      using m i2 tpi hc False s' a we
      by (intro inv_nohead_step [OF inv1]) (auto simp: head_listeners_def)
  qed
qed

lemma inv_same:
  assumes "handler_inv s tr es"
  shows "handler_inv s (tr @ []) (es @ [e])"
  using inv_nohead_step [OF assms, of s "[]"] assms
  by (simp add: handler_inv_def head_count_def)

lemma pipe_result_eff:
  "pipe_result s = (s', a) \<Longrightarrow>
     shouldWriteHead s' = shouldWriteHead s \<and> listeners s' = listeners s \<and>
     responseHeaders s' = responseHeaders s \<and> piped s' \<and>
     templatePromise s' = templatePromise s \<and> wired s' = wired s \<and> statusCode s' = statusCode s \<and>
     head_count a = 0 \<and> (\<exists>post. a = Pipe # post)"
  by (auto simp: pipe_result_def head_count_def split: if_splits)

lemma inv_step_finish:
  assumes inv: "handler_inv s tr es" and h: "handle opts s Processor_finish = (s', a)"
  shows "handler_inv s' (tr @ a) (es @ [Processor_finish])"
proof (cases "wired s \<and> finish_pending s")
  case False
  with h have "s' = s" "a = []" by auto
  with inv_same [OF inv] show ?thesis by simp
next
  case True
  note wf = True
  let ?s1 = "s\<lparr> finish_pending := False \<rparr>"
  have inv1: "handler_inv ?s1 tr es"
    using inv unfolding handler_inv_def claimed_by_def by (simp add: head_listeners_def)
  have tpi: "templatePromise s \<noteq> None"
    using inv wf unfolding handler_inv_def by simp
  show ?thesis
  proof (cases "shouldWriteHead s")
    case False
    with h wf have "s' = ?s1" "a = []" by auto
    with inv_same [OF inv1] show ?thesis by simp
  next
    case True
    then have l1: "shouldWriteHead ?s1" by simp
    let ?sc = "if statusCode s \<noteq> 0 then statusCode s else 200"
    let ?s3 = "?s1\<lparr> shouldWriteHead := False, statusCode := ?sc \<rparr>"
    obtain s4 a4 where p: "pipe_result ?s3 = (s4, a4)" by (cases "pipe_result ?s3")
    note pe = pipe_result_eff [OF p]
    from h wf True p have s': "s' = s4"
      and a: "a = [Emit_response ?sc (responseHeaders s)] @ WriteHead ?sc (responseHeaders s) # a4"
      by (cases "statusCode s = 0"; simp add: writeHead_def Let_def)+
    show ?thesis
      using pe tpi s' by (intro inv_head_step [OF inv1 l1 _ _ _ a])
                   (simp_all add: head_count_def head_listeners_def)
  qed
qed

lemma inv_step_data:
  assumes inv: "handler_inv s tr es" and h: "handle opts s (Processor_data n) = (s', a)"
  shows "handler_inv s' (tr @ a) (es @ [Processor_data n])"
proof (cases "piped s")
  case False
  with h have "s' = s" "a = []" by auto
  with inv_same [OF inv] show ?thesis by simp
next
  case True
  with h have m: "meter_write n s = (s', a)" by simp
  note eff = meter_write_eff [OF m]
  have i2: "head_count tr = 0 \<longrightarrow> \<not> piped s"
    and tpi: "templatePromise s = None \<longrightarrow> shouldWriteHead s" "wired s \<longrightarrow> templatePromise s \<noteq> None"
    using inv unfolding handler_inv_def by blast+
  show ?thesis
    using eff i2 tpi True
    by (intro inv_nohead_step [OF inv]) (auto simp: head_listeners_def)
qed

lemma inv_step_end:
  assumes inv: "handler_inv s tr es" and h: "handle opts s Processor_end = (s', a)"
  shows "handler_inv s' (tr @ a) (es @ [Processor_end])"
proof (cases "piped s")
  case False
  with h have "s' = s" "a = []" by auto
  with inv_same [OF inv] show ?thesis by simp
next
  case True
  with h have m: "meter_end s = (s', a)" by simp
  note eff = meter_end_eff [OF m]
  have i2: "head_count tr = 0 \<longrightarrow> \<not> piped s"
    and tpi: "templatePromise s = None \<longrightarrow> shouldWriteHead s" "wired s \<longrightarrow> templatePromise s \<noteq> None"
    using inv unfolding handler_inv_def by blast+
  show ?thesis
    using eff i2 tpi True
    by (intro inv_nohead_step [OF inv]) (auto simp: head_listeners_def)
qed

lemma inv_step_fail:
  assumes inv: "handler_inv s tr es" and h: "handle opts s (Downstream_fails e) = (s', a)"
  shows "handler_inv s' (tr @ a) (es @ [Downstream_fails e])"
proof (cases "piped s \<and> \<not> meter_ended s")
  case False
  with h have "s' = s" "a = []" by (auto simp: meter_fail_def split: if_splits)
  with inv_same [OF inv] show ?thesis by simp
next
  case True
  with h have s': "s' = s\<lparr> meter_ended := True \<rparr>" and a: "a = [Emit_end (meter_count s)]"
    by (auto simp: meter_fail_def split: if_splits)
  have tpi: "templatePromise s = None \<longrightarrow> shouldWriteHead s" "wired s \<longrightarrow> templatePromise s \<noteq> None"
    using inv unfolding handler_inv_def by blast+
  show ?thesis
    using tpi unfolding s' a
    by (intro inv_nohead_step [OF inv]) (auto simp: head_listeners_def head_count_def)
qed

lemma head_listeners_reemit:
  "filter is_head_listener (ls @ map (Reemit f) ns) = filter is_head_listener ls"
  by (induction ns rule: rev_induct) simp_all

lemma inv_step_found:
  assumes inv: "handler_inv s tr es" and h: "handle opts s (Fragment_found f) = (s', a)"
  shows "handler_inv s' (tr @ a) (es @ [Fragment_found f])"
proof (cases "wired s")
  case False
  with h have "s' = s" "a = []" by auto
  with inv_same [OF inv] show ?thesis by simp
next
  case True
  note w = True
  let ?s1 = "s\<lparr> listeners := listeners s @ map (Reemit f) FRAGMENT_EVENTS \<rparr>"
  have a: "a = []" using h w by (simp add: Let_def)
  have hl1: "head_listeners ?s1 = head_listeners s"
    by (simp add: head_listeners_def head_listeners_reemit)
  have tpi: "templatePromise s \<noteq> None"
    using inv w unfolding handler_inv_def by simp
  show ?thesis
  proof (cases "primary (attributes f) \<and> shouldWriteHead s")
    case False
    with h w have s': "s' = ?s1" by (auto simp: Let_def handlePrimaryFragment_def)
    show ?thesis
      using hl1 tpi w unfolding s' a
      by (intro inv_nohead_step [OF inv]) (auto simp: head_count_def)
  next
    case True
    with h w have s': "s' = ?s1\<lparr> shouldWriteHead := False,
        listeners := listeners ?s1 @ [Primary_response f, Primary_fallback f, Primary_error f] \<rparr>"
      by (simp add: Let_def handlePrimaryFragment_def)
    have i1: "head_first tr"
      and i2: "head_count tr = 0 \<longrightarrow> \<not> piped s \<and> \<not> response_ended s \<and> (\<forall>a \<in> set tr. \<not> is_body a)"
      and i3: "head_count tr = 0 \<and> head_listeners s = [] \<and> responseHeaders s = baseline_headers"
      using inv True unfolding handler_inv_def by blast+
    have hl: "head_listeners s' = some_of True True True f"
      using i3 hl1 unfolding s' by (simp add: head_listeners_def some_of_def)
    have "claimed_by f s' (tr @ a) (es @ [Fragment_found f])"
      unfolding claimed_by_def
      apply (rule exI [of _ True], rule exI [of _ True], rule exI [of _ True])
      using hl i3 a unfolding s' by simp
    then have c4: "\<exists>g. claimed_by g s' (tr @ a) (es @ [Fragment_found f])" by blast
    show ?thesis
      unfolding handler_inv_def
      using i1 i2 i3 c4 tpi a unfolding s' by simp
  qed
qed

lemma head_leads_append: "head_leads a \<Longrightarrow> head_leads b \<Longrightarrow> head_leads (a @ b)"
  by (auto simp: head_leads_def head_first_append head_count_append)

lemma head_leads_Nil: "head_leads []"
  by (simp add: head_leads_def head_count_def)

lemma on_primary_response_eff:
  assumes "on_primary_response opts f sc hs s = (s', a)"
  shows "shouldWriteHead s' = shouldWriteHead s \<and> listeners s' = listeners s \<and>
     templatePromise s' = templatePromise s \<and> wired s' = wired s \<and>
     responseHeaders s' = map_response_headers opts f hs (responseHeaders s) \<and>
     head_count a = 1 \<and> head_leads a \<and>
     (\<exists>post. a = [Emit_response sc (responseHeaders s'), WriteHead sc (responseHeaders s'), Pipe] @ post)"
proof -
  let ?s1 = "s\<lparr> responseHeaders := map_response_headers opts f hs (responseHeaders s) \<rparr>"
  let ?s2 = "?s1\<lparr> statusCode := sc \<rparr>"
  obtain s3 a3 where p: "pipe_result ?s2 = (s3, a3)" by (cases "pipe_result ?s2")
  note pe = pipe_result_eff [OF p]
  from assms p have s': "s' = s3"
    and a: "a = [Emit_response sc (responseHeaders ?s1), WriteHead sc (responseHeaders ?s1)] @ a3"
    by (simp_all add: on_primary_response_def writeHead_def Let_def)
  from pe obtain post where a3: "a3 = Pipe # post" by blast
  have hc: "head_count a = 1" using a pe by (simp add: head_count_def)
  have hl: "head_leads a" using a hc by (simp add: head_leads_def)
  show ?thesis using pe s' a a3 hc hl by simp
qed

lemma on_primary_fallback_eff:
  assumes "on_primary_fallback e s = (s', a)"
  shows "shouldWriteHead s' = shouldWriteHead s \<and> listeners s' = listeners s \<and>
     templatePromise s' = templatePromise s \<and> wired s' = wired s \<and>
     responseHeaders s' = responseHeaders s \<and>
     head_count a = 1 \<and> head_leads a"
proof -
  let ?s2 = "s\<lparr> statusCode := 500 \<rparr>"
  obtain s3 a3 where p: "pipe_result ?s2 = (s3, a3)" by (cases "pipe_result ?s2")
  note pe = pipe_result_eff [OF p]
  from assms p have s': "s' = s3"
    and a: "a = [Emit_error e, WriteHead 500 (responseHeaders s)] @ a3"
    by (simp_all add: on_primary_fallback_def writeHead_def Let_def)
  have hc: "head_count a = 1" using a pe by (simp add: head_count_def)
  have hl: "head_leads a" using a hc by (simp add: head_leads_def)
  show ?thesis using pe s' hc hl by simp
qed

lemma on_primary_error_eff:
  assumes "on_primary_error e s = (s', a)"
  shows "shouldWriteHead s' = shouldWriteHead s \<and> listeners s' = listeners s \<and>
     templatePromise s' = templatePromise s \<and> wired s' = wired s \<and>
     responseHeaders s' = responseHeaders s \<and>
     head_count a = 1 \<and> head_leads a"
proof -
  from assms have s': "s' = response_end [] (s\<lparr> statusCode := 500 \<rparr>)"
    and a: "a = [Emit_error e, WriteHead 500 (responseHeaders s), Response_end []]"
    by (simp_all add: on_primary_error_def writeHead_def Let_def)
  have hc: "head_count a = 1" using a by (simp add: head_count_def)
  have hl: "head_leads a" using a hc by (simp add: head_leads_def)
  show ?thesis using s' hc hl by simp
qed

lemma run_listener_eff:
  assumes n: "listener_event l = event_name ev" and r: "run_listener opts ev l s = (s', a)"
  shows "shouldWriteHead s' = shouldWriteHead s \<and> listeners s' = listeners s \<and>
     templatePromise s' = templatePromise s \<and> wired s' = wired s \<and>
     head_count a = (if is_head_listener l then 1 else 0) \<and> head_leads a \<and>
     (\<not> is_head_listener l \<longrightarrow> s' = s) \<and>
     ((\<forall>f. l \<noteq> Primary_response f) \<longrightarrow> responseHeaders s' = responseHeaders s)"
proof (cases l)
  case (Reemit f nm)
  with r have "s' = s" "a = [Emit_fragment (''fragment:'' @ nm) (attributes f) ev]" by simp_all
  with Reemit show ?thesis by (simp add: head_count_def head_leads_def)
next
  case (Primary_response f)
  with n obtain sc hs where ev: "ev = Ev_response sc hs" by (cases ev) auto
  with r Primary_response have "on_primary_response opts f sc hs s = (s', a)" by simp
  from on_primary_response_eff [OF this] Primary_response show ?thesis by simp
next
  case (Primary_fallback f)
  with n obtain e where ev: "ev = Ev_fallback e" by (cases ev) auto
  with r Primary_fallback have "on_primary_fallback e s = (s', a)" by simp
  from on_primary_fallback_eff [OF this] Primary_fallback show ?thesis by simp
next
  case (Primary_error f)
  with n obtain e where ev: "ev = Ev_error e" by (cases ev) auto
  with r Primary_error have "on_primary_error e s = (s', a)" by simp
  from on_primary_error_eff [OF this] Primary_error show ?thesis by simp
qed

lemma run_listeners_eff:
  assumes "\<forall>l \<in> set ls. listener_event l = event_name ev" "run_listeners opts ev ls s = (s', a)"
  shows "shouldWriteHead s' = shouldWriteHead s \<and> listeners s' = listeners s \<and>
     templatePromise s' = templatePromise s \<and> wired s' = wired s \<and>
     head_count a = length (filter is_head_listener ls) \<and> head_leads a \<and>
     (filter is_head_listener ls = [] \<longrightarrow> s' = s) \<and>
     ((\<forall>f. Primary_response f \<notin> set ls) \<longrightarrow> responseHeaders s' = responseHeaders s)"
  using assms
proof (induction ls arbitrary: s s' a)
  case Nil
  then show ?case by (simp add: head_count_def head_leads_Nil)
next
  case (Cons l ls)
  obtain s1 a1 where r1: "run_listener opts ev l s = (s1, a1)" by (cases "run_listener opts ev l s")
  obtain s2 a2 where r2: "run_listeners opts ev ls s1 = (s2, a2)" by (cases "run_listeners opts ev ls s1")
  from Cons.prems(2) r1 r2 have eq: "s' = s2" "a = a1 @ a2" by simp_all
  have n: "listener_event l = event_name ev" and ns: "\<forall>l \<in> set ls. listener_event l = event_name ev"
    using Cons.prems(1) by simp_all
  note e1 = run_listener_eff [OF n r1]
  note e2 = Cons.IH [OF ns r2]
  have hl: "head_leads (a1 @ a2)" using e1 e2 by (simp add: head_leads_append)
  have rh: "(\<forall>f. Primary_response f \<notin> set (l # ls)) \<longrightarrow> responseHeaders s2 = responseHeaders s"
    using e1 e2 by auto
  show ?case
    unfolding eq using e1 e2 hl rh by (auto simp: head_count_append)
qed

lemma filter_some_of:
  "filter Q (some_of x y z f) =
     some_of (x \<and> Q (Primary_response f)) (y \<and> Q (Primary_fallback f)) (z \<and> Q (Primary_error f)) f"
  by (simp add: some_of_def)

lemma length_some_of:
  "length (some_of x y z f) = (if x then 1 else 0) + (if y then 1 else 0) + (if z then 1 else 0)"
  by (simp add: some_of_def)

lemma set_some_of_response:
  "Primary_response g \<in> set (some_of x y z f) \<longleftrightarrow> x \<and> g = f"
  by (auto simp: some_of_def)

lemma heads_of_emit:
  "listens (fid f) ev l \<Longrightarrow> is_head_listener l \<Longrightarrow> listener_fragment l = f \<Longrightarrow>
     listener_event l \<in> set (heads_of (fid f) [Fragment_emits (fid f) ev])"
  by (cases l) (auto simp: listens_def)

lemma inv_step_emits:
  assumes inv: "handler_inv s tr es" and h: "handle opts s (Fragment_emits i ev) = (s', a)"
  shows "handler_inv s' (tr @ a) (es @ [Fragment_emits i ev])"
proof -
  let ?P = "listens i ev"
  let ?fire = "filter ?P (listeners s)"
  let ?s1 = "s\<lparr> listeners := filter (\<lambda>l. \<not> ?P l) (listeners s) \<rparr>"
  from h have r: "run_listeners opts ev ?fire ?s1 = (s', a)" by (simp add: Let_def)
  have nm: "\<forall>l \<in> set ?fire. listener_event l = event_name ev" by (simp add: listens_def)
  note eff = run_listeners_eff [OF nm r]
  have fh: "filter is_head_listener ?fire = filter ?P (head_listeners s)"
    by (simp add: head_listeners_def conj_commute)
  have hl': "head_listeners s' = filter (\<lambda>l. \<not> ?P l) (head_listeners s)"
    using eff by (simp add: head_listeners_def conj_commute)
  have i1: "head_first tr"
    and i2: "head_count tr = 0 \<longrightarrow> \<not> piped s \<and> \<not> response_ended s \<and> (\<forall>a \<in> set tr. \<not> is_body a)"
    and i3: "shouldWriteHead s \<longrightarrow>
         head_count tr = 0 \<and> head_listeners s = [] \<and> responseHeaders s = baseline_headers"
    and i4: "\<not> shouldWriteHead s \<longrightarrow>
         (head_count tr = 1 \<and> head_listeners s = []) \<or> (\<exists>f. claimed_by f s tr es)"
    and tpi: "templatePromise s = None \<longrightarrow> shouldWriteHead s" "wired s \<longrightarrow> templatePromise s \<noteq> None"
    using inv unfolding handler_inv_def by blast+
  have tp': "templatePromise s' = None \<longrightarrow> shouldWriteHead s'" "wired s' \<longrightarrow> templatePromise s' \<noteq> None"
    using eff tpi by simp_all
  show ?thesis
  proof (cases "head_listeners s = []")
    case True
    then have nofire: "filter is_head_listener ?fire = []" using fh by simp
    with eff have s': "s' = ?s1" and hc: "head_count a = 0" and hla: "head_leads a" by simp_all
    have nb: "\<forall>x \<in> set a. \<not> is_body x" using hla hc by (simp add: head_leads_def)
    have hls: "head_listeners s' = head_listeners s" using hl' True by simp
    show ?thesis
      using hls hc nb tp' unfolding s'
      by (intro inv_nohead_step [OF inv]) simp_all
  next
    case False
    with i3 have nl: "\<not> shouldWriteHead s" by blast
    with i4 False obtain f where cl: "claimed_by f s tr es" by blast
    then obtain x y z where c: "head_listeners s = some_of x y z f"
      "head_count tr = (if x then 0 else 1) + (if y then 0 else 1) + (if z then 0 else 1)"
      "\<not> x \<longrightarrow> ''response'' \<in> set (heads_of (fid f) es)"
      "\<not> y \<longrightarrow> ''fallback'' \<in> set (heads_of (fid f) es)"
      "\<not> z \<longrightarrow> ''error'' \<in> set (heads_of (fid f) es)"
      "x \<longrightarrow> responseHeaders s = baseline_headers"
      unfolding claimed_by_def by blast
    let ?x = "x \<and> \<not> ?P (Primary_response f)"
    let ?y = "y \<and> \<not> ?P (Primary_fallback f)"
    let ?z = "z \<and> \<not> ?P (Primary_error f)"
    have n1: "head_listeners s' = some_of ?x ?y ?z f"
      using hl' c(1) by (simp add: filter_some_of)
    have hca: "head_count a = (if x \<and> ?P (Primary_response f) then 1 else 0) +
        (if y \<and> ?P (Primary_fallback f) then 1 else 0) + (if z \<and> ?P (Primary_error f) then 1 else 0)"
      using eff fh c(1) by (simp add: filter_some_of length_some_of)
    have n2: "head_count (tr @ a) = (if ?x then 0 else 1) + (if ?y then 0 else 1) + (if ?z then 0 else 1)"
      unfolding head_count_append c(2) hca by simp
    have n3: "\<not> ?x \<longrightarrow> ''response'' \<in> set (heads_of (fid f) (es @ [Fragment_emits i ev]))"
      using c(3) heads_of_emit [of f ev "Primary_response f"]
      by (auto simp: heads_of_append listens_def)
    have n4: "\<not> ?y \<longrightarrow> ''fallback'' \<in> set (heads_of (fid f) (es @ [Fragment_emits i ev]))"
      using c(4) heads_of_emit [of f ev "Primary_fallback f"]
      by (auto simp: heads_of_append listens_def)
    have n5: "\<not> ?z \<longrightarrow> ''error'' \<in> set (heads_of (fid f) (es @ [Fragment_emits i ev]))"
      using c(5) heads_of_emit [of f ev "Primary_error f"]
      by (auto simp: heads_of_append listens_def)
    have n6: "?x \<longrightarrow> responseHeaders s' = baseline_headers"
    proof
      assume xx: ?x
      have "\<forall>g. Primary_response g \<notin> set ?fire"
      proof (intro allI notI)
        fix g assume g: "Primary_response g \<in> set ?fire"
        then have "Primary_response g \<in> set (head_listeners s)"
          by (simp add: head_listeners_def)
        then have "Primary_response g \<in> set (some_of x y z f)"
          by (simp only: c(1))
        then have "g = f" by (simp add: set_some_of_response)
        with g xx show False by simp
      qed
      with eff have "responseHeaders s' = responseHeaders ?s1" by blast
      with xx c(6) show "responseHeaders s' = baseline_headers" by simp
    qed
    have cl': "claimed_by f s' (tr @ a) (es @ [Fragment_emits i ev])"
      unfolding claimed_by_def
      apply (rule exI [of _ ?x], rule exI [of _ ?y], rule exI [of _ ?z])
      using n1 n2 n3 n4 n5 n6 by blast
    have hla: "head_leads a" using eff by simp
    have c1: "head_first (tr @ a)"
      using i1 i2 hla by (simp add: head_first_append head_leads_def)
    have c2: "head_count (tr @ a) = 0 \<longrightarrow>
        \<not> piped s' \<and> \<not> response_ended s' \<and> (\<forall>x \<in> set (tr @ a). \<not> is_body x)"
    proof
      assume z: "head_count (tr @ a) = 0"
      then have "head_count tr = 0" "head_count a = 0" by (simp_all add: head_count_append)
      moreover from this eff fh have "s' = ?s1" by simp
      ultimately show "\<not> piped s' \<and> \<not> response_ended s' \<and> (\<forall>x \<in> set (tr @ a). \<not> is_body x)"
        using i2 hla by (auto simp: head_leads_def)
    qed
    have nl': "\<not> shouldWriteHead s'" using eff nl by simp
    show ?thesis
      unfolding handler_inv_def
      using c1 c2 nl' cl' tp' by blast
  qed
qed

lemma inv_step:
  assumes inv: "handler_inv s tr es" and h: "handle opts s e = (s', a)"
  shows "handler_inv s' (tr @ a) (es @ [e])"
proof (cases e)
  case (Context_settled r) with inv h show ?thesis using inv_step_context by blast
next
  case (Template_settled r) with inv h show ?thesis using inv_step_template by blast
next
  case (Fragment_found f) with inv h show ?thesis using inv_step_found by blast
next
  case (Fragment_emits i ev) with inv h show ?thesis using inv_step_emits by blast
next
  case Processor_finish with inv h show ?thesis using inv_step_finish by blast
next
  case (Processor_error e) with inv h show ?thesis using inv_step_error by blast
next
  case (Processor_data n) with inv h show ?thesis using inv_step_data by blast
next
  case Processor_end with inv h show ?thesis using inv_step_end by blast
next
  case (Downstream_fails e) with inv h show ?thesis using inv_step_fail by blast
qed

lemma inv_run:
  assumes "handler_inv s tr es" "run opts s evs = (s', a)"
  shows "handler_inv s' (tr @ a) (es @ evs)"
  using assms
proof (induction evs arbitrary: s tr es a s')
  case Nil
  then show ?case by simp
next
  case (Cons e evs)
  obtain s1 a1 where st: "handle opts s e = (s1, a1)" by (cases "handle opts s e")
  obtain s2 a2 where ru: "run opts s1 evs = (s2, a2)" by (cases "run opts s1 evs")
  from Cons.prems(2) st ru have eq: "s' = s2" "a = a1 @ a2" by simp_all
  from Cons.IH [OF inv_step [OF Cons.prems(1) st] ru] eq show ?case by simp
qed

lemma inv_processRequest:
  assumes "processRequest opts sc es = (s, tr)"
  shows "\<exists>a. tr = Emit_start # a \<and> run opts (initial_state sc) es = (s, a) \<and> handler_inv s a es"
proof -
  obtain s1 a where r: "run opts (initial_state sc) es = (s1, a)" by (cases "run opts (initial_state sc) es")
  with assms have eq: "s = s1" "tr = Emit_start # a" by (simp_all add: processRequest_def)
  from inv_run [OF handler_inv_initial r] have "handler_inv s1 a es" by simp
  with r eq show ?thesis by simp
qed

section \<open>Preload hints\<close>

lemma indexOf_from_neg_iff:
  "indexOf_from i s n < 0 \<longleftrightarrow> \<not> occurs_in n s"
proof (induction i s n rule: indexOf_from.induct)
  case (1 i needle)
  then show ?case by (auto simp: occurs_in_def)
next
  case (2 i c cs needle)
  show ?case
  proof (cases "take (length needle) (c # cs) = needle")
    case True
    then have "c # cs = [] @ needle @ drop (length needle) (c # cs)"
      by (metis append_Nil append_take_drop_id)
    then have "occurs_in needle (c # cs)" unfolding occurs_in_def by blast
    with True show ?thesis by simp
  next
    case False
    have "occurs_in needle (c # cs) \<longleftrightarrow> occurs_in needle cs"
    proof
      assume "occurs_in needle (c # cs)"
      then obtain p q where pq: "c # cs = p @ needle @ q" unfolding occurs_in_def by blast
      show "occurs_in needle cs"
      proof (cases p)
        case Nil
        with pq have "take (length needle) (c # cs) = needle" by simp
        with False show ?thesis by simp
      next
        case (Cons a p')
        with pq have "cs = p' @ needle @ q" by simp
        then show ?thesis unfolding occurs_in_def by blast
      qed
    next
      assume "occurs_in needle cs"
      then obtain p q where "cs = p @ needle @ q" unfolding occurs_in_def by blast
      then have "c # cs = (c # p) @ needle @ q" by simp
      then show "occurs_in needle (c # cs)" unfolding occurs_in_def by blast
    qed
    with False 2 show ?thesis by simp
  qed
qed

lemma indexOf_neg_iff: "indexOf s n < 0 \<longleftrightarrow> \<not> occurs_in n s"
  by (simp add: indexOf_def indexOf_from_neg_iff)

lemma foldl_push_style: "foldl push_style acc us = acc @ map style_hint us"
  by (induction us arbitrary: acc) (simp_all add: push_style_def style_hint_def)

lemma getCrossOriginHeader_eq:
  "getCrossOriginHeader u host =
     (if \<exists>h. host = Some h \<and> h \<noteq> '''' \<and> \<not> occurs_in (''://'' @ h) u then ''crossorigin'' else '''')"
  by (cases host) (simp_all add: getCrossOriginHeader_def indexOf_neg_iff)

lemma foldl_push_script: "foldl (push_script host) acc us = acc @ map (script_hint host) us"
  by (induction us arbitrary: acc)
     (simp_all add: push_script_def script_hint_def getCrossOriginHeader_eq Let_def)

lemma get_prop_set_prop:
  "get_prop (set_prop k v obj) k' = (if k' = k then Some v else get_prop obj k')"
  by (induction obj) (auto simp: get_prop_def)

text \<open>
  Claim C6, as the code has it. The page's preload value lists the stylesheets first and the
  fragment scripts after them, joined by commas. A stylesheet gives
  \<^verbatim>\<open><uri>; rel="preload"; as="style"; nopush\<close>. A script gives
  \<^verbatim>\<open><uri>; rel="preload"; as="script"; nopush; \<close> followed by \<^verbatim>\<open>crossorigin\<close> exactly when
  the request has a non-empty host header and \<^verbatim>\<open>://\<close> followed by that host does not occur
  in the URI. The value is empty when the first script URI and the first stylesheet URI are
  both missing or empty. Without \<^verbatim>\<open>filterResponseHeaders\<close> the response has a
  \<^verbatim>\<open>link\<close> header exactly when the fragment's \<^verbatim>\<open>link\<close> header is non-empty and the value is
  not empty, and then it is that value.
\<close>

theorem preload_hints:
  "getAssetsToPreload parse link req =
     (let styles = map uri (filter (\<lambda>r. rel r = Some ''stylesheet'') (parse link));
          scripts = map uri (filter (\<lambda>r. rel r = Some ''fragment-script'') (parse link))
      in if (scripts = [] \<or> hd scripts = '''') \<and> (styles = [] \<or> hd styles = '''') then ''''
         else join_comma (map style_hint styles @ map (script_hint (request_host req)) scripts))
   \<and> (filterResponseHeaders opts = None \<longrightarrow>
        get_prop (map_response_headers opts f hs baseline_headers) ''link'' =
          (case get_prop hs ''link'' of
             None \<Rightarrow> None
           | Some l \<Rightarrow>
               if l = '''' \<or> getAssetsToPreload (LinkHeader_parse opts) l (the_request opts) = '''' then None
               else Some (getAssetsToPreload (LinkHeader_parse opts) l (the_request opts))))"
proof -
  have ff: "\<And>xs. first_falsy xs = (xs = [] \<or> hd xs = '''')"
    by (simp add: first_falsy_def split: list.splits)
  have a: "getAssetsToPreload parse link req =
     (let styles = map uri (filter (\<lambda>r. rel r = Some ''stylesheet'') (parse link));
          scripts = map uri (filter (\<lambda>r. rel r = Some ''fragment-script'') (parse link))
      in if (scripts = [] \<or> hd scripts = '''') \<and> (styles = [] \<or> hd styles = '''') then ''''
         else join_comma (map style_hint styles @ map (script_hint (request_host req)) scripts))"
    by (simp add: getAssetsToPreload_def Let_def foldl_push_style foldl_push_script ff)
  have b: "filterResponseHeaders opts = None \<longrightarrow>
        get_prop (map_response_headers opts f hs baseline_headers) ''link'' =
          (case get_prop hs ''link'' of
             None \<Rightarrow> None
           | Some l \<Rightarrow>
               if l = '''' \<or> getAssetsToPreload (LinkHeader_parse opts) l (the_request opts) = '''' then None
               else Some (getAssetsToPreload (LinkHeader_parse opts) l (the_request opts)))"
  proof
    assume n: "filterResponseHeaders opts = None"
    have bl: "get_prop baseline_headers ''link'' = None"
      by (simp add: baseline_headers_def get_prop_def)
    show "get_prop (map_response_headers opts f hs baseline_headers) ''link'' =
          (case get_prop hs ''link'' of
             None \<Rightarrow> None
           | Some l \<Rightarrow>
               if l = '''' \<or> getAssetsToPreload (LinkHeader_parse opts) l (the_request opts) = '''' then None
               else Some (getAssetsToPreload (LinkHeader_parse opts) l (the_request opts)))"
      by (simp add: map_response_headers_def n Let_def get_prop_set_prop bl split: option.splits)
  qed
  from a b show ?thesis by blast
qed


theorem preload_hints_witness:
  "getAssetsToPreload
     (\<lambda>l. [\<lparr> rel = Some ''fragment-script'', uri = ''http://b.com/x.js'' \<rparr>,
            \<lparr> rel = Some ''stylesheet'', uri = ''http://cdn/a.css'' \<rparr>])
     ''l'' \<lparr> req_headers = Some [(''host'', ''a.com'')] \<rparr> =
   ''<http://cdn/a.css>; rel=\"preload\"; as=\"style\"; nopush,<http://b.com/x.js>; rel=\"preload\"; as=\"script\"; nopush; crossorigin''
   \<and> get_prop
        (map_response_headers
           \<lparr> filterResponseHeaders = None, maxAssetLinks = 1,
             LinkHeader_parse = (\<lambda>l. [\<lparr> rel = Some ''fragment-script'', uri = ''http://b.com/x.js'' \<rparr>,
                                       \<lparr> rel = Some ''stylesheet'', uri = ''http://cdn/a.css'' \<rparr>]),
             the_request = \<lparr> req_headers = Some [(''host'', ''a.com'')] \<rparr> \<rparr>
           \<lparr> fid = 0, attributes = \<lparr> primary = True, url = ''http://b.com/'' \<rparr> \<rparr>
           [(''link'', ''l'')] baseline_headers) ''link'' =
      Some ''<http://cdn/a.css>; rel=\"preload\"; as=\"style\"; nopush,<http://b.com/x.js>; rel=\"preload\"; as=\"script\"; nopush; crossorigin''"
proof -
  let ?parse = "\<lambda>l::string. [\<lparr> rel = Some ''fragment-script'', uri = ''http://b.com/x.js'' \<rparr>,
            \<lparr> rel = Some ''stylesheet'', uri = ''http://cdn/a.css'' \<rparr>]"
  let ?req = "\<lparr> req_headers = Some [(''host'', ''a.com'')] \<rparr>"
  let ?opts = "\<lparr> filterResponseHeaders = None, maxAssetLinks = 1, LinkHeader_parse = ?parse,
                the_request = ?req \<rparr>"
  let ?f = "\<lparr> fid = 0, attributes = \<lparr> primary = True, url = ''http://b.com/'' \<rparr> \<rparr>"
  have h: "request_host ?req = Some ''a.com''"
    by (simp add: request_host_def get_prop_def)
  have "indexOf ''http://b.com/x.js'' (''://'' @ ''a.com'') < 0"
    by (simp add: indexOf_def)
  then have o: "\<not> occurs_in (''://'' @ ''a.com'') ''http://b.com/x.js''"
    unfolding indexOf_neg_iff .
  have sh: "script_hint (Some ''a.com'') ''http://b.com/x.js'' =
      ''<http://b.com/x.js>; rel=\"preload\"; as=\"script\"; nopush; crossorigin''"
    using o by (simp add: script_hint_def)
  have l: "get_prop [(''link'', ''l'')] ''link'' = Some ''l''"
    by (simp add: get_prop_def)
  have n: "filterResponseHeaders ?opts = None" by simp
  show ?thesis
    using preload_hints [of ?parse "''l''" ?req ?opts ?f "[(''link'', ''l'')]"]
    by (simp add: h sh l style_hint_def)
qed

text \<open>
  Against the claim as the spec words it: a script on the request's own host gets a trailing
  \<^verbatim>\<open>; \<close> after \<^verbatim>\<open>nopush\<close>, and a script whose host differs from the request host but
  begins with it gets no \<^verbatim>\<open>crossorigin\<close>.
\<close>

theorem preload_hints_counterexample:
  "getAssetsToPreload (\<lambda>l. [\<lparr> rel = Some ''fragment-script'', uri = ''http://a.com/x.js'' \<rparr>])
     ''l'' \<lparr> req_headers = Some [(''host'', ''a.com'')] \<rparr>
     \<noteq> ''<http://a.com/x.js>; rel=\"preload\"; as=\"script\"; nopush''
   \<and> uri_host ''http://a.com.evil.org/x.js'' \<noteq> ''a.com''
   \<and> getAssetsToPreload (\<lambda>l. [\<lparr> rel = Some ''fragment-script'', uri = ''http://a.com.evil.org/x.js'' \<rparr>])
     ''l'' \<lparr> req_headers = Some [(''host'', ''a.com'')] \<rparr>
     = ''<http://a.com.evil.org/x.js>; rel=\"preload\"; as=\"script\"; nopush; ''"
  by (simp add: getAssetsToPreload_def first_falsy_def push_script_def getCrossOriginHeader_def
      request_host_def get_prop_def indexOf_def uri_host_def)

section \<open>Properties of the client runtime\<close>

lemma currentScript_fields:
  "currentScript s = (c, s1) \<Longrightarrow>
     initState s1 = initState s \<and> hooks s1 = hooks s \<and> readyState s1 = readyState s \<and>
     pending_modules s1 = pending_modules s \<and> pending_inits s1 = pending_inits s \<and>
     starts s1 = starts s \<and> placeholders s1 = placeholders s"
  by (auto simp: currentScript_def split: option.splits)

lemma fireDone_state: "fst (fireDone s) = s"
  by (simp add: fireDone_def)

lemma fireDone_calls:
  "snd (fireDone s) = (if initState s = [] \<and> ready s then [Call_onDone (hooks s OnDone)] else [])"
  by (auto simp: fireDone_def ready_def)

text \<open>
  Claim C10. A call \<^verbatim>\<open>start(index, script, attributes)\<close> records the current script
  element for the index. With a script it appends the index to \<^verbatim>\<open>initState\<close> and calls
  the \<^verbatim>\<open>onStart\<close> hook (and the loader); without a script it calls nothing and leaves
  \<^verbatim>\<open>initState\<close>, the hooks and the waiting callbacks as they are, so that the decision
  of \<^verbatim>\<open>fireDone\<close> is the same before and after.
\<close>

theorem start_registers_with_script:
  assumes "pipe_step s (Start i script attrs) = (s', acts)"
  shows "starts s' i = fst (currentScript s) \<and> hooks s' = hooks s \<and>
         (if js_truthy script
          then initState s' = initState s @ [i] \<and>
               acts = [Call_onStart (hooks s OnStart) attrs i, Require (the script)]
          else initState s' = initState s \<and> acts = [] \<and>
               pending_modules s' = pending_modules s \<and> pending_inits s' = pending_inits s \<and>
               snd (fireDone s') = snd (fireDone s))"
proof -
  obtain c s1 where cs: "currentScript s = (c, s1)" by (cases "currentScript s")
  note f = currentScript_fields [OF cs]
  show ?thesis
    using assms cs f by (auto simp: start_def Let_def fireDone_calls ready_def split: if_splits)
qed

theorem start_registers_with_script_witness:
  "pipe_step (pipe_initial [Node 7 (Script True) []] (Some ''loading'')) (Start 3 None []) =
     (pipe_initial [Node 7 (Script False) []] (Some ''loading'')\<lparr> starts := (\<lambda>i. None)(3 := Some 7) \<rparr>, [])
   \<and> initState (fst (pipe_step (pipe_initial [Node 7 (Script True) []] (Some ''loading'')) (Start 3 None []))) = []
   \<and> initState (fst (pipe_step (pipe_initial [Node 7 (Script True) []] (Some ''loading'')) (Start 3 (Some ''a.js'') []))) = [3]"
proof -
  let ?s = "pipe_initial [Node 7 (Script True) []] (Some ''loading'')"
  have e1: "pipe_step ?s (Start 3 None []) =
     (pipe_initial [Node 7 (Script False) []] (Some ''loading'')\<lparr> starts := (\<lambda>i. None)(3 := Some 7) \<rparr>, [])"
    by (simp add: start_def currentScript_def pipe_initial_def js_truthy_def)
  have e2: "pipe_step ?s (Start 3 (Some ''a.js'') []) =
     (fst (pipe_step ?s (Start 3 (Some ''a.js'') [])), snd (pipe_step ?s (Start 3 (Some ''a.js'') [])))"
    by simp
  have i0: "initState ?s = []" by (simp add: pipe_initial_def)
  show ?thesis
    using start_registers_with_script [OF e1] start_registers_with_script [OF e2] e1 i0
    by (simp add: js_truthy_def)
qed

lemma registered_append: "registered (a @ b) = registered a + registered b"
  by (induction a rule: registered.induct) simp_all

lemma completed_append: "completed (a @ b) = completed a + completed b"
  by (induction a rule: completed.induct) simp_all

lemma done_called_append: "done_called (a @ b) = (done_called a \<or> done_called b)"
  by (induction a rule: done_called.induct) simp_all

lemma mset_drop_nth:
  "k < length xs \<Longrightarrow> add_mset (xs ! k) (mset (drop_nth k xs)) = mset xs"
proof -
  assume "k < length xs"
  then have "xs = take k xs @ xs ! k # drop (Suc k) xs" by (rule id_take_nth_drop)
  then have "mset xs = mset (take k xs @ xs ! k # drop (Suc k) xs)" by simp
  then show ?thesis by (simp add: drop_nth_def)
qed

lemma mset_map_drop_nth:
  "k < length xs \<Longrightarrow> add_mset (f (xs ! k)) (mset (map f (drop_nth k xs))) = mset (map f xs)"
proof -
  assume k: "k < length xs"
  have "map f (drop_nth k xs) = drop_nth k (map f xs)"
    by (simp add: drop_nth_def take_map drop_map)
  then show ?thesis using mset_drop_nth [of k "map f xs"] k by simp
qed

lemma handlerFn_effect:
  assumes "handlerFn attrs i s = (s', acts)"
  shows "initState s' = butlast (initState s) \<and> pending_modules s' = pending_modules s \<and>
         pending_inits s' = pending_inits s \<and> readyState s' = readyState s \<and>
         registered acts = {#} \<and> completed acts = {#i#} \<and>
         done_called acts = (initState s' = [] \<and> ready s')"
  using assms by (auto simp: handlerFn_def fireDone_def ready_def Let_def split: if_splits)

lemma module_callback_not_function:
  assumes "module_callback Not_a_function attrs i s = (s', acts)"
  shows "initState s' = butlast (initState s) \<and> pending_modules s' = pending_modules s \<and>
         pending_inits s' = pending_inits s \<and> readyState s' = readyState s \<and>
         registered acts = {#} \<and> completed acts = {#i#} \<and>
         done_called acts = (initState s' = [] \<and> ready s')"
  using assms by (auto simp: module_callback_def fireDone_def ready_def Let_def split: if_splits)

lemma doInit_other:
  assumes "doInit Returns_other attrs i s = (s', acts)"
  shows "initState s' = butlast (initState s) \<and> pending_modules s' = pending_modules s \<and>
         pending_inits s' = pending_inits s \<and> readyState s' = readyState s \<and>
         registered acts = {#} \<and> completed acts = {#i#} \<and>
         done_called acts = (initState s' = [] \<and> ready s')"
proof -
  obtain s1 a1 where h: "handlerFn attrs i s = (s1, a1)" by (cases "handlerFn attrs i s")
  with assms have "s' = s1" "acts = [Call_onBeforeInit (hooks s OnBeforeInit) attrs i, Call_init i] @ a1"
    by (auto simp: doInit_def)
  with handlerFn_effect [OF h] show ?thesis by simp
qed

lemma doInit_no_completion:
  assumes "doInit r attrs i s = (s', acts)" "r \<noteq> Returns_other"
  shows "initState s' = initState s \<and> pending_modules s' = pending_modules s \<and>
         readyState s' = readyState s \<and>
         pending_inits s' = (if r = Returns_thenable then pending_inits s @ [(attrs, i)] else pending_inits s) \<and>
         registered acts = {#} \<and> completed acts = {#} \<and> \<not> done_called acts"
  using assms by (cases r) (auto simp: doInit_def)


lemma start_effect:
  assumes "start i script attrs s = (s', acts)"
  shows "initState s' = (if js_truthy script then initState s @ [i] else initState s) \<and>
         pending_modules s' = pending_modules s \<and> pending_inits s' = pending_inits s \<and>
         readyState s' = readyState s \<and>
         registered acts = (if js_truthy script then {#i#} else {#}) \<and> completed acts = {#} \<and>
         \<not> done_called acts"
proof -
  obtain c s1 where cs: "currentScript s = (c, s1)" by (cases "currentScript s")
  note f = currentScript_fields [OF cs]
  show ?thesis
    using assms cs f by (auto simp: start_def Let_def split: if_splits)
qed

lemma end_marker_effect:
  assumes "end_marker i script attrs s = (s', acts)"
  shows "initState s' = initState s \<and> pending_inits s' = pending_inits s \<and>
         readyState s' = readyState s \<and>
         (pending_modules s' = pending_modules s \<or>
          (js_truthy script \<and> pending_modules s' = pending_modules s @ [(attrs, i)])) \<and>
         registered acts = {#} \<and> completed acts = {#} \<and> \<not> done_called acts"
proof -
  obtain c s1 where cs: "currentScript s = (c, s1)" by (cases "currentScript s")
  note f = currentScript_fields [OF cs]
  show ?thesis
    using assms cs f
    by (auto simp: end_marker_def Let_def split: if_splits option.splits prod.splits)
qed

lemma placeholder_effect:
  assumes "placeholder i s = (s', acts)"
  shows "initState s' = initState s \<and> pending_inits s' = pending_inits s \<and>
         readyState s' = readyState s \<and> pending_modules s' = pending_modules s \<and> acts = []"
proof -
  obtain c s1 where cs: "currentScript s = (c, s1)" by (cases "currentScript s")
  note f = currentScript_fields [OF cs]
  show ?thesis
    using assms cs f by (auto simp: placeholder_def Let_def split: if_splits)
qed

lemma pipe_inv_pop:
  assumes "pipe_inv s tr opn" "add_mset i M = mset (map snd (pending_modules s)) + mset (map snd (pending_inits s))"
  shows "initState s \<noteq> []"
proof -
  have sub: "completed tr + mset (map snd (pending_modules s)) + mset (map snd (pending_inits s)) + mset opn
        \<subseteq># registered tr"
    and len: "length (initState s) + size (completed tr) = size (registered tr)"
    using assms(1) by (simp_all add: pipe_inv_def)
  have "size (completed tr + mset (map snd (pending_modules s)) + mset (map snd (pending_inits s)) + mset opn)
        \<le> size (registered tr)"
    using sub by (rule size_mset_mono)
  moreover have "size (mset (map snd (pending_modules s)) + mset (map snd (pending_inits s))) = Suc (size M)"
    using assms(2) [symmetric] by simp
  ultimately have "size (completed tr) + 1 \<le> size (registered tr)"
    by simp
  with len show ?thesis by auto
qed


lemma pipe_inv_complete:
  assumes inv: "pipe_inv s tr opn"
    and pm: "add_mset i (mset (map snd pm') + mset (map snd pi')) =
             mset (map snd (pending_modules s)) + mset (map snd (pending_inits s))"
    and s': "initState s' = butlast (initState s)" "pending_modules s' = pm'" "pending_inits s' = pi'"
    and acts: "registered acts = {#}" "completed acts = {#i#}"
  shows "pipe_inv s' (tr @ acts) opn"
proof -
  have ne: "initState s \<noteq> []" using pipe_inv_pop [OF inv pm] .
  have sub: "completed tr + (mset (map snd (pending_modules s)) + mset (map snd (pending_inits s))) + mset opn
        \<subseteq># registered tr"
    and len: "length (initState s) + size (completed tr) = size (registered tr)"
    using inv by (simp_all add: pipe_inv_def add.assoc)
  have "completed tr + add_mset i (mset (map snd pm') + mset (map snd pi')) + mset opn \<subseteq># registered tr"
    using sub by (simp only: pm)
  then have "completed (tr @ acts) + mset (map snd pm') + mset (map snd pi') + mset opn \<subseteq># registered (tr @ acts)"
    by (simp add: completed_append registered_append acts add.assoc)
  moreover have "length (initState s') + size (completed (tr @ acts)) = size (registered (tr @ acts))"
    using len ne by (cases "initState s") (auto simp: completed_append registered_append acts s')
  ultimately show ?thesis by (simp add: pipe_inv_def s')
qed

lemma pipe_inv_weaken:
  assumes inv: "pipe_inv s tr opn"
    and sub: "mset (map snd (pending_modules s')) + mset (map snd (pending_inits s')) + mset opn'
              \<subseteq># mset (map snd (pending_modules s)) + mset (map snd (pending_inits s)) + mset opn"
    and s': "initState s' = initState s"
    and acts: "registered acts = {#}" "completed acts = {#}"
  shows "pipe_inv s' (tr @ acts) opn'"
proof -
  have a: "completed tr + (mset (map snd (pending_modules s)) + mset (map snd (pending_inits s)) + mset opn)
        \<subseteq># registered tr"
    and len: "length (initState s) + size (completed tr) = size (registered tr)"
    using inv by (simp_all add: pipe_inv_def add.assoc)
  have "completed tr + (mset (map snd (pending_modules s')) + mset (map snd (pending_inits s')) + mset opn')
        \<subseteq># completed tr + (mset (map snd (pending_modules s)) + mset (map snd (pending_inits s)) + mset opn)"
    using sub by (rule subset_mset.add_left_mono)
  then have "completed tr + (mset (map snd (pending_modules s')) + mset (map snd (pending_inits s')) + mset opn')
        \<subseteq># registered tr"
    using a by (rule subset_mset.order_trans)
  then show ?thesis
    using len by (simp add: pipe_inv_def completed_append registered_append acts s' add.assoc)
qed


lemma pipe_step_inv:
  assumes inv: "pipe_inv s tr opn" and m: "matched opn (x # rest)" and st: "pipe_step s x = (s', acts)"
  shows "pipe_inv s' (tr @ acts) (opened opn [x])"
proof (cases x)
  case (Placeholder i)
  with st have "placeholder i s = (s', acts)" by simp
  from placeholder_effect [OF this] inv Placeholder show ?thesis
    by (simp add: pipe_inv_def)
next
  case (Start i script attrs)
  with st have "start i script attrs s = (s', acts)" by simp
  from start_effect [OF this] inv Start show ?thesis
    by (auto simp: pipe_inv_def registered_append completed_append ac_simps)
next
  case (End i script attrs)
  with st have e: "end_marker i script attrs s = (s', acts)" by simp
  note eff = end_marker_effect [OF e]
  show ?thesis
  proof (cases "js_truthy script")
    case False
    with eff have "pending_modules s' = pending_modules s" by auto
    with eff inv End False show ?thesis
      by (simp add: pipe_inv_def registered_append completed_append)
  next
    case True
    with m End have mem: "i \<in> set opn" by simp
    then have o: "add_mset i (mset (remove1 i opn)) = mset opn" by simp
    have "mset (map snd (pending_modules s')) + mset (remove1 i opn)
            \<subseteq># mset (map snd (pending_modules s)) + mset opn"
    proof (cases "pending_modules s' = pending_modules s")
      case True
      have "mset (remove1 i opn) \<subseteq># mset opn" by simp
      then show ?thesis using True by (simp add: subset_mset.add_left_mono)
    next
      case False
      with eff have "pending_modules s' = pending_modules s @ [(attrs, i)]" by auto
      then have "mset (map snd (pending_modules s')) + mset (remove1 i opn) =
                 mset (map snd (pending_modules s)) + add_mset i (mset (remove1 i opn))"
        by simp
      then show ?thesis by (simp only: o subset_mset.order_refl)
    qed
    then have "mset (map snd (pending_modules s')) + mset (map snd (pending_inits s')) + mset (remove1 i opn)
            \<subseteq># mset (map snd (pending_modules s)) + mset (map snd (pending_inits s)) + mset opn"
      using eff by (simp add: ac_simps)
    from pipe_inv_weaken [OF inv this] eff End True show ?thesis by simp
  qed
next
  case (Assign_hook h cb)
  with st inv show ?thesis by (auto simp: pipe_inv_def)
next
  case (Node_parsed par n k)
  with st inv show ?thesis by (auto simp: pipe_inv_def)
next
  case (Set_readyState r)
  with st inv show ?thesis by (auto simp: pipe_inv_def)
next
  case (Promise_settled k)
  show ?thesis
  proof (cases "k < length (pending_inits s)")
    case False
    with st inv Promise_settled show ?thesis by (auto simp: pipe_inv_def)
  next
    case True
    obtain attrs i where p: "pending_inits s ! k = (attrs, i)" by (cases "pending_inits s ! k")
    let ?s0 = "s\<lparr> pending_inits := drop_nth k (pending_inits s) \<rparr>"
    from st Promise_settled True p have h: "handlerFn attrs i ?s0 = (s', acts)" by simp
    note eff = handlerFn_effect [OF h]
    have "add_mset (snd (pending_inits s ! k)) (mset (map snd (drop_nth k (pending_inits s)))) = mset (map snd (pending_inits s))"
      using True by (rule mset_map_drop_nth)
    then have pm: "add_mset i (mset (map snd (pending_modules s')) + mset (map snd (pending_inits s'))) =
             mset (map snd (pending_modules s)) + mset (map snd (pending_inits s))"
      using eff p by simp
    from pipe_inv_complete [OF inv pm] eff Promise_settled show ?thesis by simp
  qed
next
  case (Module_loaded k md)
  show ?thesis
  proof (cases "k < length (pending_modules s)")
    case False
    with st inv Module_loaded show ?thesis by (auto simp: pipe_inv_def)
  next
    case True
    obtain attrs i where p: "pending_modules s ! k = (attrs, i)" by (cases "pending_modules s ! k")
    let ?s0 = "s\<lparr> pending_modules := drop_nth k (pending_modules s) \<rparr>"
    from st Module_loaded True p have h: "module_callback md attrs i ?s0 = (s', acts)" by simp
    have dn: "add_mset i (mset (map snd (drop_nth k (pending_modules s)))) = mset (map snd (pending_modules s))"
      using mset_map_drop_nth [OF True, of snd] p by simp
    consider (nf) "md = Not_a_function" | (other) "md = Init_function Returns_other"
      | (rest) r where "md = Init_function r" "r \<noteq> Returns_other"
      by (cases md) auto
    then show ?thesis
    proof cases
      case nf
      note eff = module_callback_not_function [OF h [unfolded nf]]
      have pm: "add_mset i (mset (map snd (pending_modules s')) + mset (map snd (pending_inits s'))) =
             mset (map snd (pending_modules s)) + mset (map snd (pending_inits s))"
        using eff dn by simp
      from pipe_inv_complete [OF inv pm] eff Module_loaded show ?thesis by simp
    next
      case other
      from h other have "doInit Returns_other attrs i ?s0 = (s', acts)" by (simp add: module_callback_def)
      note eff = doInit_other [OF this]
      have pm: "add_mset i (mset (map snd (pending_modules s')) + mset (map snd (pending_inits s'))) =
             mset (map snd (pending_modules s)) + mset (map snd (pending_inits s))"
        using eff dn by simp
      from pipe_inv_complete [OF inv pm] eff Module_loaded show ?thesis by simp
    next
      case rest
      from h rest have "doInit r attrs i ?s0 = (s', acts)" by (simp add: module_callback_def)
      note eff = doInit_no_completion [OF this rest(2)]
      have "mset (map snd (pending_modules s')) + mset (map snd (pending_inits s'))
            \<subseteq># mset (map snd (pending_modules s)) + mset (map snd (pending_inits s))"
      proof -
        let ?PM0 = "mset (map snd (drop_nth k (pending_modules s)))"
        let ?PI = "mset (map snd (pending_inits s))"
        have pm': "mset (map snd (pending_modules s')) = ?PM0" using eff by simp
        have "?PM0 + mset (map snd (pending_inits s')) \<subseteq># add_mset i ?PM0 + ?PI"
        proof (cases "r = Returns_thenable")
          case True
          with eff have "mset (map snd (pending_inits s')) = add_mset i ?PI" by simp
          then show ?thesis by simp
        next
          case False
          with eff have "mset (map snd (pending_inits s')) = ?PI" by simp
          then show ?thesis by simp
        qed
        then show ?thesis by (simp only: pm' dn)
      qed
      then have "mset (map snd (pending_modules s')) + mset (map snd (pending_inits s')) + mset opn
            \<subseteq># mset (map snd (pending_modules s)) + mset (map snd (pending_inits s)) + mset opn"
        by (simp add: subset_mset.add_right_mono)
      from pipe_inv_weaken [OF inv this] eff Module_loaded show ?thesis by simp
    qed
  qed
qed


lemma pipe_step_done:
  assumes st: "pipe_step s x = (s', acts)"
  shows "done_called acts \<longleftrightarrow> completes s x \<and> initState s' = [] \<and> ready s'"
proof (cases x)
  case (Placeholder i)
  with st have "placeholder i s = (s', acts)" by simp
  from placeholder_effect [OF this] Placeholder show ?thesis by simp
next
  case (Start i script attrs)
  with st have "start i script attrs s = (s', acts)" by simp
  from start_effect [OF this] Start show ?thesis by simp
next
  case (End i script attrs)
  with st have "end_marker i script attrs s = (s', acts)" by simp
  from end_marker_effect [OF this] End show ?thesis by simp
next
  case (Assign_hook h cb)
  with st show ?thesis by auto
next
  case (Node_parsed par n k)
  with st show ?thesis by auto
next
  case (Set_readyState r)
  with st show ?thesis by auto
next
  case (Promise_settled k)
  show ?thesis
  proof (cases "k < length (pending_inits s)")
    case False
    with st Promise_settled show ?thesis by auto
  next
    case True
    obtain attrs i where p: "pending_inits s ! k = (attrs, i)" by (cases "pending_inits s ! k")
    from st Promise_settled True p
    have h: "handlerFn attrs i (s\<lparr> pending_inits := drop_nth k (pending_inits s) \<rparr>) = (s', acts)" by simp
    from handlerFn_effect [OF h] Promise_settled True show ?thesis by simp
  qed
next
  case (Module_loaded k md)
  show ?thesis
  proof (cases "k < length (pending_modules s)")
    case False
    with st Module_loaded show ?thesis by auto
  next
    case True
    obtain attrs i where p: "pending_modules s ! k = (attrs, i)" by (cases "pending_modules s ! k")
    let ?s0 = "s\<lparr> pending_modules := drop_nth k (pending_modules s) \<rparr>"
    from st Module_loaded True p have h: "module_callback md attrs i ?s0 = (s', acts)" by simp
    consider (nf) "md = Not_a_function" | (other) "md = Init_function Returns_other"
      | (rest) r where "md = Init_function r" "r \<noteq> Returns_other"
      by (cases md) auto
    then show ?thesis
    proof cases
      case nf
      from module_callback_not_function [OF h [unfolded nf]] Module_loaded True nf show ?thesis by simp
    next
      case other
      from h other have "doInit Returns_other attrs i ?s0 = (s', acts)" by (simp add: module_callback_def)
      from doInit_other [OF this] Module_loaded True other show ?thesis by simp
    next
      case rest
      from h rest have "doInit r attrs i ?s0 = (s', acts)" by (simp add: module_callback_def)
      from doInit_no_completion [OF this rest(2)] Module_loaded True rest show ?thesis by simp
    qed
  qed
qed

lemma matched_Cons: "matched opn (x # ops) = (matched opn [x] \<and> matched (opened opn [x]) ops)"
  by (cases x) auto

lemma opened_Cons: "opened opn (x # ops) = opened (opened opn [x]) ops"
  by (cases x) auto

lemma matched_append: "matched opn (xs @ ys) = (matched opn xs \<and> matched (opened opn xs) ys)"
proof (induction xs arbitrary: opn)
  case Nil
  show ?case by simp
next
  case (Cons x xs)
  have "matched opn ((x # xs) @ ys) = (matched opn [x] \<and> matched (opened opn [x]) (xs @ ys))"
    using matched_Cons [of opn x "xs @ ys"] by simp
  also have "\<dots> = (matched opn [x] \<and> matched (opened opn [x]) xs \<and> matched (opened (opened opn [x]) xs) ys)"
    by (simp add: Cons.IH)
  also have "\<dots> = (matched opn (x # xs) \<and> matched (opened opn (x # xs)) ys)"
    using matched_Cons [of opn x xs] opened_Cons [of opn x xs] by simp
  finally show ?case .
qed

lemma pipe_run_inv:
  assumes "pipe_inv s tr opn" "matched opn ops" "pipe_run s ops = (s', acts)"
  shows "\<exists>opn'. pipe_inv s' (tr @ acts) opn'"
  using assms
proof (induction ops arbitrary: s tr opn acts s')
  case Nil
  then show ?case by auto
next
  case (Cons x ops)
  obtain s1 a1 where st: "pipe_step s x = (s1, a1)" by (cases "pipe_step s x")
  obtain s2 a2 where ru: "pipe_run s1 ops = (s2, a2)" by (cases "pipe_run s1 ops")
  have i1: "pipe_inv s1 (tr @ a1) (opened opn [x])"
    using pipe_step_inv [OF Cons.prems(1) Cons.prems(2) st] .
  show ?case
  proof (cases "Never_returns \<in> set a1")
    case True
    with Cons.prems(3) st have "s' = s1" "acts = a1" by simp_all
    with i1 show ?thesis by auto
  next
    case False
    with Cons.prems(3) st ru have eq: "s' = s2" "acts = a1 @ a2" by simp_all
    have m1: "matched (opened opn [x]) ops"
      using Cons.prems(2) matched_Cons [of opn x ops] by simp
    from Cons.IH [OF i1 m1 ru] eq show ?thesis by simp
  qed
qed

lemma pipe_inv_initial: "pipe_inv (pipe_initial els r) [] []"
  by (simp add: pipe_inv_def pipe_initial_def)

lemma pipe_inv_all_completed:
  assumes "pipe_inv s tr opn" "initState s = []"
  shows "registered tr = completed tr"
proof -
  have "completed tr + (mset (map snd (pending_modules s)) + mset (map snd (pending_inits s)) + mset opn)
          \<subseteq># registered tr"
    using assms(1) by (simp add: pipe_inv_def add.assoc)
  moreover have "completed tr \<subseteq>#
      completed tr + (mset (map snd (pending_modules s)) + mset (map snd (pending_inits s)) + mset opn)"
    by (rule mset_subset_eq_add_left)
  ultimately have sub: "completed tr \<subseteq># registered tr"
    by (rule subset_mset.order_trans [rotated])
  have sz: "size (completed tr) = size (registered tr)"
    using assms by (simp add: pipe_inv_def)
  from sub obtain C where C: "registered tr = completed tr + C"
    by (auto simp: mset_subset_eq_exists_conv)
  with sz have "C = {#}" by simp
  with C show ?thesis by simp
qed

lemma pipe_run_inv_opened:
  assumes "pipe_inv s tr opn" "matched opn ops" "pipe_run s ops = (s', acts)"
    and "Never_returns \<notin> set acts"
  shows "pipe_inv s' (tr @ acts) (opened opn ops)"
  using assms
proof (induction ops arbitrary: s tr opn acts s')
  case Nil
  then show ?case by simp
next
  case (Cons x ops)
  obtain s1 a1 where st: "pipe_step s x = (s1, a1)" by (cases "pipe_step s x")
  obtain s2 a2 where ru: "pipe_run s1 ops = (s2, a2)" by (cases "pipe_run s1 ops")
  have n1: "Never_returns \<notin> set a1"
    using Cons.prems(3,4) st by (auto split: if_splits)
  with Cons.prems(3) st ru have eq: "s' = s2" "acts = a1 @ a2" by simp_all
  have n2: "Never_returns \<notin> set a2" using Cons.prems(4) eq by simp
  have i1: "pipe_inv s1 (tr @ a1) (opened opn [x])"
    using pipe_step_inv [OF Cons.prems(1) Cons.prems(2) st] .
  have m1: "matched (opened opn [x]) ops"
    using Cons.prems(2) matched_Cons [of opn x ops] by simp
  from Cons.IH [OF i1 m1 ru n2] eq opened_Cons [of opn x ops] show ?case by simp
qed

text \<open>
  When the hook \<^verbatim>\<open>onDone\<close> is called. \<^verbatim>\<open>fireDone\<close> runs only in the steps that
  complete an initialisation, and calls the \<^verbatim>\<open>onDone\<close> hook in those of them that leave
  \<^verbatim>\<open>initState\<close> empty with the document parsed. When the markers of the page are matched,
  every fragment registered by then (its \<^verbatim>\<open>onStart\<close> hook was called) has completed its
  initialisation (its \<^verbatim>\<open>onAfterInit\<close> hook was called) whenever \<^verbatim>\<open>onDone\<close> is called:
  the hook never runs while a registered fragment is pending.
\<close>

lemma onDone_only_after_all_initialised:
  assumes "matched [] (ops @ [x])"
    and "pipe_run (pipe_initial doc r) ops = (s, tr)" and "Never_returns \<notin> set tr"
    and "pipe_step s x = (s', acts)"
  shows "(done_called acts \<longleftrightarrow> completes s x \<and> initState s' = [] \<and> ready s')
       \<and> (done_called acts \<longrightarrow> registered (tr @ acts) = completed (tr @ acts))"
proof -
  have m: "matched [] ops" "matched (opened [] ops) [x]"
    using assms(1) by (simp_all add: matched_append)
  have i1: "pipe_inv s ([] @ tr) (opened [] ops)"
    using pipe_run_inv_opened [OF pipe_inv_initial m(1) assms(2) assms(3)] .
  then have i1': "pipe_inv s tr (opened [] ops)" by simp
  have i2: "pipe_inv s' (tr @ acts) (opened (opened [] ops) [x])"
    using pipe_step_inv [OF i1' m(2) assms(4)] .
  have d: "done_called acts \<longleftrightarrow> completes s x \<and> initState s' = [] \<and> ready s'"
    using pipe_step_done [OF assms(4)] .
  show ?thesis
    using d pipe_inv_all_completed [OF i2] by blast
qed

text \<open>
  Nothing but the completion of an initialisation runs \<^verbatim>\<open>fireDone\<close>: when no callback
  and no promise is waiting, no call of the page or of the browser calls the hook, whatever
  \<^verbatim>\<open>readyState\<close> becomes.
\<close>

lemma no_completion_no_onDone:
  assumes "pending_modules s = []" "pending_inits s = []"
  shows "\<not> done_called (snd (pipe_step s x))"
proof -
  have "\<not> completes s x" using assms by (cases x) simp_all
  with pipe_step_done [of s x "fst (pipe_step s x)" "snd (pipe_step s x)"] show ?thesis by simp
qed

text \<open>
  Claim C9. The comment above \<^verbatim>\<open>fireDone\<close> in src/pipe.js says that \<^verbatim>\<open>onDone\<close> will
  be called once the document is completely parsed and no fragment is being streamed, and the
  claim says the same. The code calls \<^verbatim>\<open>fireDone\<close> only when an initialisation completes
  and listens to no change of \<^verbatim>\<open>readyState\<close>. In the first run below the only fragment of
  the page completes its initialisation while the document is still loading; then the document
  becomes \<^verbatim>\<open>interactive\<close> and \<^verbatim>\<open>complete\<close>. At the end \<^verbatim>\<open>initState\<close> is empty,
  the document is parsed, nothing is waiting, and the hook installed as \<^verbatim>\<open>onDone\<close> has
  not been called and will not be. In the second run the same module arrives after the
  document has become \<^verbatim>\<open>interactive\<close>, and the hook is called.
\<close>

theorem onDone_missed_when_parsing_ends_last:
  "snd (pipe_run (pipe_initial [] (Some ''loading''))
         [Assign_hook OnDone 7,
          Node_parsed None 1 (Script True), Start 0 (Some ''a.js'') [],
          Node_parsed None 2 (Script True), End 0 (Some ''a.js'') [],
          Module_loaded 0 (Init_function Returns_other),
          Set_readyState (Some ''interactive''), Set_readyState (Some ''complete'')])
     = [Call_onStart 0 [] 0, Require ''a.js'', Require_callback ''a.js'',
        Call_onBeforeInit 0 [] 0, Call_init 0, Call_onAfterInit 0 [] 0]
   \<and> initState (fst (pipe_run (pipe_initial [] (Some ''loading''))
         [Assign_hook OnDone 7,
          Node_parsed None 1 (Script True), Start 0 (Some ''a.js'') [],
          Node_parsed None 2 (Script True), End 0 (Some ''a.js'') [],
          Module_loaded 0 (Init_function Returns_other),
          Set_readyState (Some ''interactive''), Set_readyState (Some ''complete'')])) = []
   \<and> readyState (fst (pipe_run (pipe_initial [] (Some ''loading''))
         [Assign_hook OnDone 7,
          Node_parsed None 1 (Script True), Start 0 (Some ''a.js'') [],
          Node_parsed None 2 (Script True), End 0 (Some ''a.js'') [],
          Module_loaded 0 (Init_function Returns_other),
          Set_readyState (Some ''interactive''), Set_readyState (Some ''complete'')])) = Some ''complete''
   \<and> pending_modules (fst (pipe_run (pipe_initial [] (Some ''loading''))
         [Assign_hook OnDone 7,
          Node_parsed None 1 (Script True), Start 0 (Some ''a.js'') [],
          Node_parsed None 2 (Script True), End 0 (Some ''a.js'') [],
          Module_loaded 0 (Init_function Returns_other),
          Set_readyState (Some ''interactive''), Set_readyState (Some ''complete'')])) = []
   \<and> pending_inits (fst (pipe_run (pipe_initial [] (Some ''loading''))
         [Assign_hook OnDone 7,
          Node_parsed None 1 (Script True), Start 0 (Some ''a.js'') [],
          Node_parsed None 2 (Script True), End 0 (Some ''a.js'') [],
          Module_loaded 0 (Init_function Returns_other),
          Set_readyState (Some ''interactive''), Set_readyState (Some ''complete'')])) = []
   \<and> snd (pipe_run (pipe_initial [] (Some ''loading''))
         [Assign_hook OnDone 7,
          Node_parsed None 1 (Script True), Start 0 (Some ''a.js'') [],
          Node_parsed None 2 (Script True), End 0 (Some ''a.js'') [],
          Set_readyState (Some ''interactive''),
          Module_loaded 0 (Init_function Returns_other),
          Set_readyState (Some ''complete'')])
     = [Call_onStart 0 [] 0, Require ''a.js'', Require_callback ''a.js'',
        Call_onBeforeInit 0 [] 0, Call_init 0, Call_onAfterInit 0 [] 0, Call_onDone 7]"
  by code_simp

lemma turning_round: "has_parent turning_page 9 \<and> 9 \<notin> set (descendants turning_page 1) \<and> next_sibling turning_page 1 = Some 5 \<and> insert_before turning_page 1 9 = turned_page"
  by (simp add: turning_page_def turned_page_def has_parent_def descendants_def find_node_def next_sibling_def insert_before_def)
lemma turned_round: "has_parent turned_page 9 \<and> 9 \<notin> set (descendants turned_page 5) \<and> next_sibling turned_page 5 = Some 1 \<and> insert_before turned_page 5 9 = turning_page"
  by (simp add: turning_page_def turned_page_def has_parent_def descendants_def find_node_def next_sibling_def insert_before_def)

lemma move_nodes_turning:
  assumes "move_nodes p e n d = Some y"
  shows "\<not> (p = 9 \<and> e = Some 2 \<and> ((n = Some 1 \<and> d = turning_page) \<or> (n = Some 5 \<and> d = turned_page)))"
proof (rule move_nodes.raw_induct
    [where P = "\<lambda>p e n d y. \<not> (p = 9 \<and> e = Some 2 \<and> ((n = Some 1 \<and> d = turning_page) \<or> (n = Some 5 \<and> d = turned_page)))",
     OF _ assms])
  fix mv :: "nat \<Rightarrow> nat option \<Rightarrow> nat option \<Rightarrow> dom_state \<Rightarrow> (bool \<times> dom_state) option"
    and p e nextNode d y
  assume IH: "\<And>p e n d y. mv p e n d = Some y \<Longrightarrow>
      \<not> (p = 9 \<and> e = Some 2 \<and> ((n = Some 1 \<and> d = turning_page) \<or> (n = Some 5 \<and> d = turned_page)))"
    and body: "(case nextNode of None \<Rightarrow> Some (False, d)
      | Some node \<Rightarrow>
          if \<not> has_parent d p then Some (False, d)
          else if p \<in> set (descendants d node) then Some (False, d)
               else if Some node = e
                    then Some (True, insert_before d node p)
                    else mv p e (next_sibling d node) (insert_before d node p)) = Some y"
  show "\<not> (p = 9 \<and> e = Some 2 \<and> ((nextNode = Some 1 \<and> d = turning_page) \<or> (nextNode = Some 5 \<and> d = turned_page)))"
  proof
    assume h: "p = 9 \<and> e = Some 2 \<and> ((nextNode = Some 1 \<and> d = turning_page) \<or> (nextNode = Some 5 \<and> d = turned_page))"
    then consider (a) "nextNode = Some 1" "d = turning_page" | (b) "nextNode = Some 5" "d = turned_page" by blast
    then show False
    proof cases
      case a
      with h body turning_round have "mv 9 (Some 2) (Some 5) turned_page = Some y" by simp
      from IH [OF this] show False by simp
    next
      case b
      with h body turned_round have "mv 9 (Some 2) (Some 1) turning_page = Some y" by simp
      from IH [OF this] show False by simp
    qed
  qed
qed


text \<open>The loop of \<^verbatim>\<open>end\<close> has no value on that document.\<close>

lemma move_nodes_may_not_end: "move_nodes 9 (Some 2) (Some 1) turning_page = None"
proof (cases "move_nodes 9 (Some 2) (Some 1) turning_page")
  case None
  then show ?thesis .
next
  case (Some y)
  from move_nodes_turning [OF Some] show ?thesis by simp
qed

section \<open>Properties of the request handler\<close>

lemma exclusive_two:
  assumes "one_head_event es" "a \<in> set (heads_of i es)" "b \<in> set (heads_of i es)"
  shows "a = b"
proof -
  have "card (set (heads_of i es)) \<le> Suc 0"
    using assms(1) by (simp add: one_head_event_def length_remdups_card_conv)
  then show ?thesis
    using assms(2,3) by (simp add: card_le_Suc0_iff_eq)
qed

lemma claimed_head_count:
  assumes ex: "one_head_event es" and cl: "claimed_by f s tr es"
  shows "head_count tr \<le> 1"
proof -
  from cl obtain x y z where c:
      "head_count tr = (if x then 0 else 1) + (if y then 0 else 1) + (if z then 0 else 1)"
      "\<not> x \<longrightarrow> ''response'' \<in> set (heads_of (fid f) es)"
      "\<not> y \<longrightarrow> ''fallback'' \<in> set (heads_of (fid f) es)"
      "\<not> z \<longrightarrow> ''error'' \<in> set (heads_of (fid f) es)"
    unfolding claimed_by_def by blast
  have xy: "x \<or> y" using exclusive_two [OF ex, of "''response''" "fid f" "''fallback''"] c(2,3) by auto
  have xz: "x \<or> z" using exclusive_two [OF ex, of "''response''" "fid f" "''error''"] c(2,4) by auto
  have yz: "y \<or> z" using exclusive_two [OF ex, of "''fallback''" "fid f" "''error''"] c(3,4) by auto
  show ?thesis using c(1) xy xz yz by auto
qed

lemma inv_head_count_le:
  assumes ex: "one_head_event es" and inv: "handler_inv s tr es"
  shows "head_count tr \<le> 1"
proof -
  have i3: "shouldWriteHead s \<longrightarrow> head_count tr = 0"
    and i4: "\<not> shouldWriteHead s \<longrightarrow>
         (head_count tr = 1 \<and> head_listeners s = []) \<or> (\<exists>f. claimed_by f s tr es)"
    using inv unfolding handler_inv_def by blast+
  show ?thesis
  proof (cases "shouldWriteHead s")
    case True
    with i3 show ?thesis by simp
  next
    case False
    with i4 claimed_head_count [OF ex] show ?thesis by auto
  qed
qed

lemma inv_head_count_le3:
  assumes inv: "handler_inv s tr es"
  shows "head_count tr \<le> 3"
proof -
  have i3: "shouldWriteHead s \<longrightarrow> head_count tr = 0"
    and i4: "\<not> shouldWriteHead s \<longrightarrow>
         (head_count tr = 1 \<and> head_listeners s = []) \<or> (\<exists>f. claimed_by f s tr es)"
    using inv unfolding handler_inv_def by blast+
  show ?thesis
  proof (cases "shouldWriteHead s")
    case True
    with i3 show ?thesis by simp
  next
    case False
    with i4 consider "head_count tr = 1" | f where "claimed_by f s tr es" by blast
    then show ?thesis
    proof cases
      case 1
      then show ?thesis by simp
    next
      case 2
      then obtain x y z where
        "head_count tr = (if x then 0 else 1) + (if y then 0 else 1) + (if z then 0 else 1)"
        unfolding claimed_by_def by blast
      then show ?thesis by simp
    qed
  qed
qed

text \<open>
  Claim C1, as the code has it. In a request that is completed (the response has been ended)
  the handler has called \<^verbatim>\<open>writeHead\<close> at least once and at most three times, and no
  action that brings bytes to the response or ends it (the pipe through the Content-Length
  Meter, a chunk, \<^verbatim>\<open>response.end\<close>) comes before the first call. It has called it exactly
  once when no fragment emits two different events among \<^verbatim>\<open>response\<close>, \<^verbatim>\<open>fallback\<close>
  and \<^verbatim>\<open>error\<close>: each of the three listeners of \<^verbatim>\<open>handlePrimaryFragment\<close> writes the
  head when its event comes.
\<close>

theorem head_written_first:
  assumes "processRequest opts sc es = (s, tr)" and "response_ended s"
  shows "1 \<le> head_count tr \<and> head_count tr \<le> 3 \<and> head_first tr
       \<and> (one_head_event es \<longrightarrow> head_count tr = 1)"
proof -
  from inv_processRequest [OF assms(1)] obtain a where a: "tr = Emit_start # a"
    and inv: "handler_inv s a es" by blast
  have i1: "head_first a"
    and i2: "head_count a = 0 \<longrightarrow> \<not> response_ended s"
    using inv unfolding handler_inv_def by blast+
  have ge: "head_count a \<noteq> 0" using i2 assms(2) by blast
  have le: "head_count a \<le> 3" using inv_head_count_le3 [OF inv] .
  have one: "one_head_event es \<longrightarrow> head_count a = 1"
  proof
    assume "one_head_event es"
    from inv_head_count_le [OF this inv] ge show "head_count a = 1" by simp
  qed
  have e: "head_count tr = head_count a" "head_first tr = head_first a"
    unfolding a by (simp_all add: head_count_def)
  show ?thesis unfolding e using ge le i1 one by simp
qed

theorem head_written_first_witness:
  "one_head_event
     [Template_settled (Inr []), Context_settled (Inr []),
      Fragment_found \<lparr> fid = 1, attributes = \<lparr> primary = True, url = ''http://a/'' \<rparr> \<rparr>,
      Fragment_emits 1 (Ev_response 200 []), Processor_data 5, Processor_end]
   \<and> response_ended (fst (processRequest
        \<lparr> filterResponseHeaders = None, maxAssetLinks = 1, LinkHeader_parse = (\<lambda>l. []),
          the_request = \<lparr> req_headers = Some [] \<rparr> \<rparr> 0
        [Template_settled (Inr []), Context_settled (Inr []),
         Fragment_found \<lparr> fid = 1, attributes = \<lparr> primary = True, url = ''http://a/'' \<rparr> \<rparr>,
         Fragment_emits 1 (Ev_response 200 []), Processor_data 5, Processor_end]))
   \<and> head_statuses (snd (processRequest
        \<lparr> filterResponseHeaders = None, maxAssetLinks = 1, LinkHeader_parse = (\<lambda>l. []),
          the_request = \<lparr> req_headers = Some [] \<rparr> \<rparr> 0
        [Template_settled (Inr []), Context_settled (Inr []),
         Fragment_found \<lparr> fid = 1, attributes = \<lparr> primary = True, url = ''http://a/'' \<rparr> \<rparr>,
         Fragment_emits 1 (Ev_response 200 []), Processor_data 5, Processor_end])) = [200]
   \<and> head_count (snd (processRequest
        \<lparr> filterResponseHeaders = None, maxAssetLinks = 1, LinkHeader_parse = (\<lambda>l. []),
          the_request = \<lparr> req_headers = Some [] \<rparr> \<rparr> 0
        [Template_settled (Inr []), Context_settled (Inr []),
         Fragment_found \<lparr> fid = 1, attributes = \<lparr> primary = True, url = ''http://a/'' \<rparr> \<rparr>,
         Fragment_emits 1 (Ev_response 200 []), Processor_data 5, Processor_end])) = 1
   \<and> head_first (snd (processRequest
        \<lparr> filterResponseHeaders = None, maxAssetLinks = 1, LinkHeader_parse = (\<lambda>l. []),
          the_request = \<lparr> req_headers = Some [] \<rparr> \<rparr> 0
        [Template_settled (Inr []), Context_settled (Inr []),
         Fragment_found \<lparr> fid = 1, attributes = \<lparr> primary = True, url = ''http://a/'' \<rparr> \<rparr>,
         Fragment_emits 1 (Ev_response 200 []), Processor_data 5, Processor_end]))"
proof -
  let ?es = "[Template_settled (Inr []), Context_settled (Inr []),
      Fragment_found \<lparr> fid = 1, attributes = \<lparr> primary = True, url = ''http://a/'' \<rparr> \<rparr>,
      Fragment_emits 1 (Ev_response 200 []), Processor_data 5, Processor_end]"
  let ?o = "\<lparr> filterResponseHeaders = None, maxAssetLinks = 1, LinkHeader_parse = (\<lambda>l::string. []),
          the_request = \<lparr> req_headers = Some [] \<rparr> \<rparr>"
  have ex: "one_head_event ?es" by (simp add: one_head_event_def)
  have pr: "processRequest ?o 0 ?es = (fst (processRequest ?o 0 ?es), snd (processRequest ?o 0 ?es))"
    by simp
  have en: "response_ended (fst (processRequest ?o 0 ?es))" by code_simp
  have hs: "head_statuses (snd (processRequest ?o 0 ?es)) = [200]" by code_simp
  show ?thesis
    using head_written_first [OF pr en] ex en hs by simp
qed

text \<open>
  Against the claim as the spec words it: the primary fragment responds, its body is piped,
  and then it emits \<^verbatim>\<open>error\<close> (by section 8 of the spec \<^verbatim>\<open>response\<close> precedes the
  terminal event of a fragment). The listener of \<^verbatim>\<open>error\<close> writes a second head, after
  five bytes of body, and ends the response.
\<close>

theorem head_written_first_counterexample:
  "response_ended (fst (processRequest
        \<lparr> filterResponseHeaders = None, maxAssetLinks = 1, LinkHeader_parse = (\<lambda>l. []),
          the_request = \<lparr> req_headers = Some [] \<rparr> \<rparr> 0
        [Template_settled (Inr []), Context_settled (Inr []),
         Fragment_found \<lparr> fid = 1, attributes = \<lparr> primary = True, url = ''http://a/'' \<rparr> \<rparr>,
         Fragment_emits 1 (Ev_response 200 []), Processor_data 5,
         Fragment_emits 1 (Ev_error \<lparr> code = None, presentable = None \<rparr>)]))
   \<and> head_count (snd (processRequest
        \<lparr> filterResponseHeaders = None, maxAssetLinks = 1, LinkHeader_parse = (\<lambda>l. []),
          the_request = \<lparr> req_headers = Some [] \<rparr> \<rparr> 0
        [Template_settled (Inr []), Context_settled (Inr []),
         Fragment_found \<lparr> fid = 1, attributes = \<lparr> primary = True, url = ''http://a/'' \<rparr> \<rparr>,
         Fragment_emits 1 (Ev_response 200 []), Processor_data 5,
         Fragment_emits 1 (Ev_error \<lparr> code = None, presentable = None \<rparr>)])) = 2
   \<and> filter (\<lambda>a. is_head a \<or> is_body a) (snd (processRequest
        \<lparr> filterResponseHeaders = None, maxAssetLinks = 1, LinkHeader_parse = (\<lambda>l. []),
          the_request = \<lparr> req_headers = Some [] \<rparr> \<rparr> 0
        [Template_settled (Inr []), Context_settled (Inr []),
         Fragment_found \<lparr> fid = 1, attributes = \<lparr> primary = True, url = ''http://a/'' \<rparr> \<rparr>,
         Fragment_emits 1 (Ev_response 200 []), Processor_data 5,
         Fragment_emits 1 (Ev_error \<lparr> code = None, presentable = None \<rparr>)]))
     = [WriteHead 200 baseline_headers, Pipe, Body_bytes 5, WriteHead 500 baseline_headers,
        Response_end '''']"
  by code_simp

lemma latch_after_meter [simp]:
  "shouldWriteHead (fst (meter_end s)) = shouldWriteHead s"
  "shouldWriteHead (fst (meter_write n s)) = shouldWriteHead s"
  "shouldWriteHead (fst (pipe_result s)) = shouldWriteHead s"
  by (simp_all add: meter_end_def meter_write_def pipe_result_def)

lemma latch_after_handleError [simp]: "\<not> shouldWriteHead (fst (handleError e s))"
  by (simp add: handleError_def writeHead_def Let_def split_beta)

lemma latch_after_listeners:
  "shouldWriteHead (fst (handle opts s (Fragment_emits i ev))) = shouldWriteHead s"
proof -
  let ?fire = "filter (listens i ev) (listeners s)"
  let ?s1 = "s\<lparr> listeners := filter (\<lambda>l. \<not> listens i ev l) (listeners s) \<rparr>"
  have nm: "\<forall>l \<in> set ?fire. listener_event l = event_name ev" by (simp add: listens_def)
  have "shouldWriteHead (fst (run_listeners opts ev ?fire ?s1)) = shouldWriteHead ?s1"
    using run_listeners_eff [OF nm, of opts ?s1 "fst (run_listeners opts ev ?fire ?s1)" "snd (run_listeners opts ev ?fire ?s1)"]
    by simp
  then show ?thesis by (simp add: Let_def)
qed

lemma latch_stays_cleared:
  assumes "\<not> shouldWriteHead s"
  shows "\<not> shouldWriteHead (fst (handle opts s e))"
proof (cases e)
  case (Context_settled r)
  then show ?thesis using assms
    by (simp add: wire_def Let_def split_beta split: sum.splits option.splits)
next
  case (Template_settled r)
  then show ?thesis using assms
    by (simp add: wire_def Let_def split: sum.splits option.splits)
next
  case (Fragment_found f)
  then show ?thesis using assms by (simp add: handlePrimaryFragment_def Let_def)
next
  case (Fragment_emits i ev)
  then show ?thesis using assms by (simp add: latch_after_listeners del: handle.simps)
next
  case Processor_finish
  then show ?thesis using assms by (simp add: Let_def)
next
  case (Processor_error er)
  then show ?thesis using assms by simp
next
  case (Processor_data n)
  then show ?thesis using assms by simp
next
  case Processor_end
  then show ?thesis using assms by simp
next
  case (Downstream_fails er)
  then show ?thesis using assms by (simp add: meter_fail_def)
qed

lemma latch_cleared_iff:
  assumes "shouldWriteHead s"
  shows "\<not> shouldWriteHead (fst (handle opts s e)) \<longleftrightarrow> clears s e"
proof (cases e)
  case (Context_settled r)
  then show ?thesis using assms
    by (simp add: wire_def Let_def split_beta split: sum.splits option.splits)
next
  case (Template_settled r)
  then show ?thesis using assms
    by (cases r) (simp_all add: wire_def Let_def split: option.splits)
next
  case (Fragment_found f)
  then show ?thesis using assms by (simp add: handlePrimaryFragment_def Let_def)
next
  case (Fragment_emits i ev)
  then show ?thesis using assms by (simp add: latch_after_listeners del: handle.simps)
next
  case Processor_finish
  then show ?thesis using assms by (simp add: Let_def split_beta writeHead_def)
next
  case (Processor_error er)
  then show ?thesis using assms by simp
next
  case (Processor_data n)
  then show ?thesis using assms by simp
next
  case Processor_end
  then show ?thesis using assms by simp
next
  case (Downstream_fails er)
  then show ?thesis using assms by (simp add: meter_fail_def)
qed


lemma found_head_listeners:
  "head_listeners (fst (handle opts s (Fragment_found f))) =
     (if wired s \<and> primary (attributes f) \<and> shouldWriteHead s
      then head_listeners s @ [Primary_response f, Primary_fallback f, Primary_error f]
      else head_listeners s)"
  by (simp add: handlePrimaryFragment_def Let_def head_listeners_def head_listeners_reemit)

lemma emits_head_count:
  "head_count (snd (handle opts s (Fragment_emits i ev))) =
     length (filter (listens i ev) (head_listeners s))"
proof -
  let ?fire = "filter (listens i ev) (listeners s)"
  let ?s1 = "s\<lparr> listeners := filter (\<lambda>l. \<not> listens i ev l) (listeners s) \<rparr>"
  have nm: "\<forall>l \<in> set ?fire. listener_event l = event_name ev" by (simp add: listens_def)
  have "head_count (snd (run_listeners opts ev ?fire ?s1)) = length (filter is_head_listener ?fire)"
    using run_listeners_eff [OF nm, of opts ?s1 "fst (run_listeners opts ev ?fire ?s1)" "snd (run_listeners opts ev ?fire ?s1)"]
    by simp
  then show ?thesis by (simp add: Let_def head_listeners_def conj_commute)
qed

text \<open>
  Claim C2, as the code has it. The latch starts set and is never set again. A set latch is
  cleared exactly by these events: a primary fragment is found (\<^verbatim>\<open>handlePrimaryFragment\<close>
  clears it before any listener is registered), the processor finishes, or an error reaches
  \<^verbatim>\<open>handleError\<close>. The primary fragment found while the latch is set gets the three
  listeners that write the head; a primary fragment found afterwards gets none, and the
  events of a fragment without such a listener write no head, however early they come.
\<close>

theorem latch_cleared_by_first_claim:
  "shouldWriteHead (initial_state sc)
   \<and> (\<not> shouldWriteHead s \<longrightarrow> \<not> shouldWriteHead (fst (handle opts s e)))
   \<and> (shouldWriteHead s \<longrightarrow> (\<not> shouldWriteHead (fst (handle opts s e)) \<longleftrightarrow> clears s e))
   \<and> (shouldWriteHead s \<and> wired s \<and> primary (attributes f) \<longrightarrow>
        head_listeners (fst (handle opts s (Fragment_found f))) =
          head_listeners s @ [Primary_response f, Primary_fallback f, Primary_error f])
   \<and> (\<not> shouldWriteHead s \<longrightarrow>
        head_listeners (fst (handle opts s (Fragment_found f))) = head_listeners s)
   \<and> ((\<forall>l \<in> set (head_listeners s). fid (listener_fragment l) \<noteq> i) \<longrightarrow>
        head_count (snd (handle opts s (Fragment_emits i ev))) = 0)"
proof -
  have a: "shouldWriteHead (initial_state sc)" by (simp add: initial_state_def)
  have b: "\<not> shouldWriteHead s \<longrightarrow> \<not> shouldWriteHead (fst (handle opts s e))"
    using latch_stays_cleared by blast
  have c: "shouldWriteHead s \<longrightarrow> (\<not> shouldWriteHead (fst (handle opts s e)) \<longleftrightarrow> clears s e)"
    using latch_cleared_iff by blast
  have d: "shouldWriteHead s \<and> wired s \<and> primary (attributes f) \<longrightarrow>
        head_listeners (fst (handle opts s (Fragment_found f))) =
          head_listeners s @ [Primary_response f, Primary_fallback f, Primary_error f]"
    by (simp only: found_head_listeners) simp
  have e: "\<not> shouldWriteHead s \<longrightarrow>
        head_listeners (fst (handle opts s (Fragment_found f))) = head_listeners s"
    by (simp only: found_head_listeners) simp
  have f: "(\<forall>l \<in> set (head_listeners s). fid (listener_fragment l) \<noteq> i) \<longrightarrow>
        head_count (snd (handle opts s (Fragment_emits i ev))) = 0"
    by (simp only: emits_head_count) (simp add: listens_def filter_empty_conv)
  from a b c d e f show ?thesis by blast
qed

theorem latch_cleared_by_first_claim_witness:
  "\<not> shouldWriteHead (fst (handle
        \<lparr> filterResponseHeaders = None, maxAssetLinks = 1, LinkHeader_parse = (\<lambda>l. []),
          the_request = \<lparr> req_headers = Some [] \<rparr> \<rparr>
        (fst (run \<lparr> filterResponseHeaders = None, maxAssetLinks = 1, LinkHeader_parse = (\<lambda>l. []),
                   the_request = \<lparr> req_headers = Some [] \<rparr> \<rparr> (initial_state 0)
                 [Template_settled (Inr []), Context_settled (Inr [])]))
        (Fragment_found \<lparr> fid = 1, attributes = \<lparr> primary = True, url = ''http://a/'' \<rparr> \<rparr>)))
   \<and> head_count (snd (handle
        \<lparr> filterResponseHeaders = None, maxAssetLinks = 1, LinkHeader_parse = (\<lambda>l. []),
          the_request = \<lparr> req_headers = Some [] \<rparr> \<rparr>
        (fst (run \<lparr> filterResponseHeaders = None, maxAssetLinks = 1, LinkHeader_parse = (\<lambda>l. []),
                   the_request = \<lparr> req_headers = Some [] \<rparr> \<rparr> (initial_state 0)
                 [Template_settled (Inr []), Context_settled (Inr [])]))
        (Fragment_emits 2 (Ev_response 201 [])))) = 0"
proof -
  let ?o = "\<lparr> filterResponseHeaders = None, maxAssetLinks = 1, LinkHeader_parse = (\<lambda>l::string. []),
          the_request = \<lparr> req_headers = Some [] \<rparr> \<rparr>"
  let ?f = "\<lparr> fid = 1, attributes = \<lparr> primary = True, url = ''http://a/'' \<rparr> \<rparr>"
  let ?s = "fst (run ?o (initial_state 0) [Template_settled (Inr []), Context_settled (Inr [])])"
  have l: "shouldWriteHead ?s" by code_simp
  have c: "clears ?s (Fragment_found ?f)" by code_simp
  have h: "\<forall>l \<in> set (head_listeners ?s). fid (listener_fragment l) \<noteq> 2" by code_simp
  show ?thesis
    using latch_cleared_by_first_claim [of 0 ?s ?o "Fragment_found ?f" ?f 2 "Ev_response 201 []"] l c h
    by blast
qed

text \<open>
  Against the claim as the spec words it: when the first primary fragment has been found the
  latch is cleared although no head-write event has occurred, and when a second primary
  fragment responds first it is the head of the first one in template order that is written.
\<close>

theorem latch_cleared_by_first_claim_counterexample:
  "\<not> shouldWriteHead (fst (processRequest
        \<lparr> filterResponseHeaders = None, maxAssetLinks = 1, LinkHeader_parse = (\<lambda>l. []),
          the_request = \<lparr> req_headers = Some [] \<rparr> \<rparr> 0
        [Template_settled (Inr []), Context_settled (Inr []),
         Fragment_found \<lparr> fid = 1, attributes = \<lparr> primary = True, url = ''http://a/'' \<rparr> \<rparr>]))
   \<and> head_statuses (snd (processRequest
        \<lparr> filterResponseHeaders = None, maxAssetLinks = 1, LinkHeader_parse = (\<lambda>l. []),
          the_request = \<lparr> req_headers = Some [] \<rparr> \<rparr> 0
        [Template_settled (Inr []), Context_settled (Inr []),
         Fragment_found \<lparr> fid = 1, attributes = \<lparr> primary = True, url = ''http://a/'' \<rparr> \<rparr>])) = []
   \<and> head_statuses (snd (processRequest
        \<lparr> filterResponseHeaders = None, maxAssetLinks = 1, LinkHeader_parse = (\<lambda>l. []),
          the_request = \<lparr> req_headers = Some [] \<rparr> \<rparr> 0
        [Template_settled (Inr []), Context_settled (Inr []),
         Fragment_found \<lparr> fid = 1, attributes = \<lparr> primary = True, url = ''http://a/'' \<rparr> \<rparr>,
         Fragment_found \<lparr> fid = 2, attributes = \<lparr> primary = True, url = ''http://b/'' \<rparr> \<rparr>,
         Fragment_emits 2 (Ev_response 201 []),
         Fragment_emits 1 (Ev_response 200 [])])) = [200]"
  by code_simp

lemma meter_end_calls:
  "snd (meter_end s) =
     (if meter_ended s then [] else Emit_end (meter_count s) # (if piped s then [Response_end ''''] else []))"
  by (simp add: meter_end_def)

lemma meter_end_status [simp]: "statusCode (fst (meter_end s)) = statusCode s"
  by (simp add: meter_end_def)

lemma handleError_calls:
  "snd (handleError e s) =
     (if shouldWriteHead s
      then [Emit_error e,
            WriteHead (if code e = Some TEMPLATE_NOT_FOUND then 404 else 500) (responseHeaders s),
            Response_end (case presentable e of Some p \<Rightarrow> p | None \<Rightarrow> '''')]
      else [Emit_error e, Meter_end] @ snd (meter_end s))"
  by (simp add: handleError_def writeHead_def Let_def split_beta)

lemma handleError_state:
  "response_ended (fst (handleError e s)) = (if shouldWriteHead s then True else response_ended (fst (meter_end s)))"
  "\<not> shouldWriteHead s \<Longrightarrow> statusCode (fst (handleError e s)) = statusCode s"
  by (simp_all add: handleError_def writeHead_def Let_def split_beta)

text \<open>
  Claim C3, as the code has it. \<^verbatim>\<open>handleError\<close> decides by the latch, not by whether the
  head has been written. An error that reaches it while the latch is set is answered with
  status 404 when its code is \<^verbatim>\<open>TEMPLATE_NOT_FOUND\<close> and 500 otherwise, with the baseline
  headers, and the response is ended with the presentable string of the error as its body,
  or with no body. An error that reaches it when the latch is cleared (the head has been
  written, or a primary fragment has been found and has not answered yet) only ends the
  Content-Length Meter; no head is written and the status code stays as it is.
\<close>

theorem error_handled_by_latch:
  assumes "processRequest opts sc es = (s, tr)"
    and "(ev = Template_settled (Inl e) \<and> templatePromise s = None) \<or>
         (ev = Processor_error e \<and> wired s \<and> error_pending s)"
  shows "if shouldWriteHead s
         then snd (handle opts s ev) =
                [Emit_error e,
                 WriteHead (if code e = Some TEMPLATE_NOT_FOUND then 404 else 500) baseline_headers,
                 Response_end (case presentable e of Some p \<Rightarrow> p | None \<Rightarrow> '''')]
              \<and> response_ended (fst (handle opts s ev))
         else snd (handle opts s ev) =
                [Emit_error e, Meter_end] @
                (if meter_ended s then []
                 else Emit_end (meter_count s) # (if piped s then [Response_end ''''] else []))
              \<and> statusCode (fst (handle opts s ev)) = statusCode s
              \<and> head_count (snd (handle opts s ev)) = 0"
proof -
  from inv_processRequest [OF assms(1)] obtain a where inv: "handler_inv s a es" by blast
  then have bl: "shouldWriteHead s \<longrightarrow> responseHeaders s = baseline_headers"
    unfolding handler_inv_def by blast
  from assms(2) show ?thesis
  proof
    assume h: "ev = Template_settled (Inl e) \<and> templatePromise s = None"
    let ?s1 = "s\<lparr> templatePromise := Some (Inl e) \<rparr>"
    have hd: "handle opts s ev = handleError e ?s1" using h by simp
    show ?thesis
      unfolding hd using bl
      by (simp add: handleError_calls handleError_state meter_end_calls head_count_def)
  next
    assume h: "ev = Processor_error e \<and> wired s \<and> error_pending s"
    let ?s1 = "s\<lparr> error_pending := False \<rparr>"
    have hd: "handle opts s ev = handleError e ?s1" using h by simp
    show ?thesis
      unfolding hd using bl
      by (simp add: handleError_calls handleError_state meter_end_calls head_count_def)
  qed
qed

theorem error_handled_by_latch_witness:
  "snd (handle
        \<lparr> filterResponseHeaders = None, maxAssetLinks = 1, LinkHeader_parse = (\<lambda>l. []),
          the_request = \<lparr> req_headers = Some [] \<rparr> \<rparr>
        (fst (processRequest
           \<lparr> filterResponseHeaders = None, maxAssetLinks = 1, LinkHeader_parse = (\<lambda>l. []),
             the_request = \<lparr> req_headers = Some [] \<rparr> \<rparr> 0 [Context_settled (Inr [])]))
        (Template_settled (Inl \<lparr> code = Some TEMPLATE_NOT_FOUND, presentable = Some ''gone'' \<rparr>)))
   = [Emit_error \<lparr> code = Some TEMPLATE_NOT_FOUND, presentable = Some ''gone'' \<rparr>,
      WriteHead 404 baseline_headers, Response_end ''gone'']"
proof -
  let ?o = "\<lparr> filterResponseHeaders = None, maxAssetLinks = 1, LinkHeader_parse = (\<lambda>l::string. []),
          the_request = \<lparr> req_headers = Some [] \<rparr> \<rparr>"
  let ?e = "\<lparr> code = Some TEMPLATE_NOT_FOUND, presentable = Some ''gone'' \<rparr>"
  let ?s = "fst (processRequest ?o 0 [Context_settled (Inr [])])"
  let ?tr = "snd (processRequest ?o 0 [Context_settled (Inr [])])"
  have pr: "processRequest ?o 0 [Context_settled (Inr [])] = (?s, ?tr)" by simp
  have t: "templatePromise ?s = None" by code_simp
  have l: "shouldWriteHead ?s" by code_simp
  have c: "(Template_settled (Inl ?e) = Template_settled (Inl ?e) \<and> templatePromise ?s = None) \<or>
         (Template_settled (Inl ?e) = Processor_error ?e \<and> wired ?s \<and> error_pending ?s)"
    using t by simp
  show ?thesis
    using error_handled_by_latch [OF pr c] l by simp
qed

text \<open>
  Against the claim as the spec words it: a primary fragment has been found and no head has
  been written; the processor emits an error; the handler writes no head and closes the meter.
\<close>

theorem error_handled_by_latch_counterexample:
  "head_statuses (snd (processRequest
        \<lparr> filterResponseHeaders = None, maxAssetLinks = 1, LinkHeader_parse = (\<lambda>l. []),
          the_request = \<lparr> req_headers = Some [] \<rparr> \<rparr> 0
        [Template_settled (Inr []), Context_settled (Inr []),
         Fragment_found \<lparr> fid = 1, attributes = \<lparr> primary = True, url = ''http://a/'' \<rparr> \<rparr>])) = []
   \<and> snd (handle
        \<lparr> filterResponseHeaders = None, maxAssetLinks = 1, LinkHeader_parse = (\<lambda>l. []),
          the_request = \<lparr> req_headers = Some [] \<rparr> \<rparr>
        (fst (processRequest
           \<lparr> filterResponseHeaders = None, maxAssetLinks = 1, LinkHeader_parse = (\<lambda>l. []),
             the_request = \<lparr> req_headers = Some [] \<rparr> \<rparr> 0
           [Template_settled (Inr []), Context_settled (Inr []),
            Fragment_found \<lparr> fid = 1, attributes = \<lparr> primary = True, url = ''http://a/'' \<rparr> \<rparr>]))
        (Processor_error \<lparr> code = None, presentable = None \<rparr>))
     = [Emit_error \<lparr> code = None, presentable = None \<rparr>, Meter_end, Emit_end 0]"
  by code_simp

text \<open>
  Claim C8. When \<^verbatim>\<open>fetchContext\<close> fails the handler emits \<^verbatim>\<open>context:error\<close> and is then
  in the state in which an empty context object would have left it, having made the same
  calls: the response is not touched. When \<^verbatim>\<open>fetchTemplate\<close> fails the handler emits
  \<^verbatim>\<open>error\<close>, writes the head with the baseline headers and ends the response; nothing is
  wired to a template processor.
\<close>

theorem context_failure_tolerated_template_failure_fatal:
  assumes "processRequest opts sc es = (s, tr)"
  shows "(contextPromise s = None \<longrightarrow>
            handle opts s (Context_settled (Inl e)) =
              (fst (handle opts s (Context_settled (Inr []))),
               Emit_context_error e # snd (handle opts s (Context_settled (Inr [])))) \<and>
            contextPromise (fst (handle opts s (Context_settled (Inl e)))) = Some [])
       \<and> (templatePromise s = None \<longrightarrow>
            snd (handle opts s (Template_settled (Inl e'))) =
              [Emit_error e',
               WriteHead (if code e' = Some TEMPLATE_NOT_FOUND then 404 else 500) baseline_headers,
               Response_end (case presentable e' of Some p \<Rightarrow> p | None \<Rightarrow> '''')] \<and>
            response_ended (fst (handle opts s (Template_settled (Inl e')))) \<and>
            \<not> wired (fst (handle opts s (Template_settled (Inl e')))))"
proof -
  from inv_processRequest [OF assms(1)] obtain a where inv: "handler_inv s a es" by blast
  then have bl: "shouldWriteHead s \<longrightarrow> responseHeaders s = baseline_headers"
    and tn: "templatePromise s = None \<longrightarrow> shouldWriteHead s"
    and w: "wired s \<longrightarrow> templatePromise s \<noteq> None"
    unfolding handler_inv_def by blast+
  have c: "contextPromise s = None \<longrightarrow>
            handle opts s (Context_settled (Inl e)) =
              (fst (handle opts s (Context_settled (Inr []))),
               Emit_context_error e # snd (handle opts s (Context_settled (Inr [])))) \<and>
            contextPromise (fst (handle opts s (Context_settled (Inl e)))) = Some []"
    by (simp add: wire_def Let_def split_beta split: option.splits sum.splits)
  have t: "templatePromise s = None \<longrightarrow>
            snd (handle opts s (Template_settled (Inl e'))) =
              [Emit_error e',
               WriteHead (if code e' = Some TEMPLATE_NOT_FOUND then 404 else 500) baseline_headers,
               Response_end (case presentable e' of Some p \<Rightarrow> p | None \<Rightarrow> '''')] \<and>
            response_ended (fst (handle opts s (Template_settled (Inl e')))) \<and>
            \<not> wired (fst (handle opts s (Template_settled (Inl e'))))"
  proof
    assume n: "templatePromise s = None"
    let ?s1 = "s\<lparr> templatePromise := Some (Inl e') \<rparr>"
    have l: "shouldWriteHead ?s1" "responseHeaders ?s1 = baseline_headers" "\<not> wired ?s1"
      using n bl tn w by simp_all
    have hd: "handle opts s (Template_settled (Inl e')) = handleError e' ?s1" using n by simp
    have nw: "\<not> wired (fst (handleError e' ?s1))"
      using handleError_latched [OF l(1), of e' "fst (handleError e' ?s1)" "snd (handleError e' ?s1)"] l(3)
      by simp
    show "snd (handle opts s (Template_settled (Inl e'))) =
              [Emit_error e',
               WriteHead (if code e' = Some TEMPLATE_NOT_FOUND then 404 else 500) baseline_headers,
               Response_end (case presentable e' of Some p \<Rightarrow> p | None \<Rightarrow> '''')] \<and>
            response_ended (fst (handle opts s (Template_settled (Inl e')))) \<and>
            \<not> wired (fst (handle opts s (Template_settled (Inl e'))))"
      unfolding hd using l nw by (simp add: handleError_calls handleError_state)
  qed
  from c t show ?thesis by blast
qed

theorem context_failure_tolerated_template_failure_fatal_witness:
  "contextPromise (fst (processRequest
      \<lparr> filterResponseHeaders = None, maxAssetLinks = 1, LinkHeader_parse = (\<lambda>l. []),
        the_request = \<lparr> req_headers = Some [] \<rparr> \<rparr> 200 [Template_settled (Inr [''<html>''])])) = None
   \<and> snd (handle
      \<lparr> filterResponseHeaders = None, maxAssetLinks = 1, LinkHeader_parse = (\<lambda>l. []),
        the_request = \<lparr> req_headers = Some [] \<rparr> \<rparr>
      (fst (processRequest
        \<lparr> filterResponseHeaders = None, maxAssetLinks = 1, LinkHeader_parse = (\<lambda>l. []),
          the_request = \<lparr> req_headers = Some [] \<rparr> \<rparr> 200 [Template_settled (Inr [''<html>''])]))
      (Context_settled (Inl \<lparr> code = None, presentable = None \<rparr>)))
     = [Emit_context_error \<lparr> code = None, presentable = None \<rparr>,
        ProcessTemplate (nextIndexGenerator 0 1) [], Write_tokens [''<html>'']]
   \<and> templatePromise (fst (processRequest
      \<lparr> filterResponseHeaders = None, maxAssetLinks = 1, LinkHeader_parse = (\<lambda>l. []),
        the_request = \<lparr> req_headers = Some [] \<rparr> \<rparr> 200 [Context_settled (Inr [])])) = None
   \<and> snd (handle
      \<lparr> filterResponseHeaders = None, maxAssetLinks = 1, LinkHeader_parse = (\<lambda>l. []),
        the_request = \<lparr> req_headers = Some [] \<rparr> \<rparr>
      (fst (processRequest
        \<lparr> filterResponseHeaders = None, maxAssetLinks = 1, LinkHeader_parse = (\<lambda>l. []),
          the_request = \<lparr> req_headers = Some [] \<rparr> \<rparr> 200 [Context_settled (Inr [])]))
      (Template_settled (Inl \<lparr> code = None, presentable = None \<rparr>)))
     = [Emit_error \<lparr> code = None, presentable = None \<rparr>,
        WriteHead 500 baseline_headers, Response_end '''']"
proof -
  let ?o = "\<lparr> filterResponseHeaders = None, maxAssetLinks = 1, LinkHeader_parse = (\<lambda>l::string. []),
        the_request = \<lparr> req_headers = Some [] \<rparr> \<rparr>"
  let ?e = "\<lparr> code = None, presentable = None \<rparr>"
  let ?p1 = "processRequest ?o 200 [Template_settled (Inr [''<html>''])]"
  let ?p2 = "processRequest ?o 200 [Context_settled (Inr [])]"
  have pr1: "?p1 = (fst ?p1, snd ?p1)" by simp
  have pr2: "?p2 = (fst ?p2, snd ?p2)" by simp
  have c: "contextPromise (fst ?p1) = None" by code_simp
  have t: "templatePromise (fst ?p2) = None" by code_simp
  have r: "snd (handle ?o (fst ?p1) (Context_settled (Inr []))) =
      [ProcessTemplate (nextIndexGenerator 0 1) [], Write_tokens [''<html>'']]" by code_simp
  note w1 = context_failure_tolerated_template_failure_fatal [OF pr1, of ?e ?e]
  note w2 = context_failure_tolerated_template_failure_fatal [OF pr2, of ?e ?e]
  have s1: "snd (handle ?o (fst ?p1) (Context_settled (Inl ?e))) =
       Emit_context_error ?e # snd (handle ?o (fst ?p1) (Context_settled (Inr [])))"
    using w1 c by (metis snd_conv)
  have s2: "snd (handle ?o (fst ?p2) (Template_settled (Inl ?e))) =
      [Emit_error ?e, WriteHead 500 baseline_headers, Response_end '''']"
    using w2 t by simp
  show ?thesis
    using c t s1 s2 r by (simp only: simp_thms)
qed

lemma map_response_headers_filtered:
  "map_response_headers opts f hs rh =
     (let rh1 = Object_assign rh (filtered opts f hs);
          rh2 = (case get_prop hs ''location'' of
                   Some loc \<Rightarrow> if loc \<noteq> '''' then set_prop ''location'' loc rh1 else rh1
                 | None \<Rightarrow> rh1);
          preloadAssets = (case get_prop hs ''link'' of
                   Some link \<Rightarrow>
                     if link \<noteq> '''' then getAssetsToPreload (LinkHeader_parse opts) link (the_request opts)
                     else ''''
                 | None \<Rightarrow> '''')
      in if preloadAssets \<noteq> '''' then set_prop ''link'' preloadAssets rh2 else rh2)"
  by (simp add: map_response_headers_def filtered_def Object_assign_def split: option.splits)

lemma map_response_headers_other:
  assumes "k \<noteq> ''location''" "k \<noteq> ''link''"
  shows "get_prop (map_response_headers opts f hs rh) k = get_prop (Object_assign rh (filtered opts f hs)) k"
  using assms
  by (simp add: map_response_headers_filtered Let_def get_prop_set_prop split: option.splits)

lemma map_response_headers_location:
  "get_prop (map_response_headers opts f hs rh) ''location'' =
     (case get_prop hs ''location'' of
        Some loc \<Rightarrow> if loc \<noteq> '''' then Some loc
                    else get_prop (Object_assign rh (filtered opts f hs)) ''location''
      | None \<Rightarrow> get_prop (Object_assign rh (filtered opts f hs)) ''location'')"
  by (simp add: map_response_headers_filtered Let_def get_prop_set_prop split: option.splits)

lemma no_head_filter: "head_count a = 0 \<Longrightarrow> filter is_head a = []"
  by (simp add: head_count_def)

lemma run_listeners_response:
  assumes "\<forall>l \<in> set ls. listener_event l = ''response''"
    and "filter is_head_listener ls = [Primary_response f]"
  shows "filter is_head (snd (run_listeners opts (Ev_response st hs) ls s)) =
           [WriteHead st (map_response_headers opts f hs (responseHeaders s))]"
  using assms
proof (induction ls arbitrary: s)
  case Nil
  then show ?case by simp
next
  case (Cons l ls)
  let ?ev = "Ev_response st hs"
  have nm: "listener_event l = event_name ?ev" and nms: "\<forall>l \<in> set ls. listener_event l = event_name ?ev"
    using Cons.prems(1) by simp_all
  obtain s1 a1 where r1: "run_listener opts ?ev l s = (s1, a1)" by (cases "run_listener opts ?ev l s")
  obtain s2 a2 where r2: "run_listeners opts ?ev ls s1 = (s2, a2)" by (cases "run_listeners opts ?ev ls s1")
  have a: "snd (run_listeners opts ?ev (l # ls) s) = a1 @ a2" using r1 r2 by simp
  note e1 = run_listener_eff [OF nm r1]
  show ?case
  proof (cases "is_head_listener l")
    case False
    with e1 have s1: "s1 = s" and h1: "filter is_head a1 = []" by (simp_all add: no_head_filter)
    from False Cons.prems(2) have "filter is_head_listener ls = [Primary_response f]" by simp
    from Cons.IH [OF _ this, of s1] Cons.prems(1) r2 have "filter is_head a2 =
        [WriteHead st (map_response_headers opts f hs (responseHeaders s1))]" by simp
    with a h1 s1 show ?thesis by simp
  next
    case True
    with Cons.prems(2) have l: "l = Primary_response f" and rest: "filter is_head_listener ls = []"
      by simp_all
    from r1 l have o: "on_primary_response opts f st hs s = (s1, a1)" by simp
    from on_primary_response_eff [OF o] obtain post where
      a1: "a1 = [Emit_response st (responseHeaders s1), WriteHead st (responseHeaders s1), Pipe] @ post"
      and hc: "head_count a1 = 1"
      and rh: "responseHeaders s1 = map_response_headers opts f hs (responseHeaders s)" by blast
    from hc a1 have "filter is_head post = []" by (simp add: head_count_def)
    with a1 rh have h1: "filter is_head a1 = [WriteHead st (map_response_headers opts f hs (responseHeaders s))]"
      by simp
    from run_listeners_eff [OF nms r2] rest have "filter is_head a2 = []" by (simp add: no_head_filter)
    with a h1 show ?thesis by simp
  qed
qed

lemma primary_response_head:
  assumes inv: "handler_inv s tr es" and p: "Primary_response f \<in> set (listeners s)"
  shows "filter is_head (snd (handle opts s (Fragment_emits (fid f) (Ev_response st hs)))) =
           [WriteHead st (map_response_headers opts f hs baseline_headers)]"
proof -
  let ?ev = "Ev_response st hs"
  let ?P = "listens (fid f) ?ev"
  let ?fire = "filter ?P (listeners s)"
  let ?s1 = "s\<lparr> listeners := filter (\<lambda>l. \<not> ?P l) (listeners s) \<rparr>"
  from p have ph: "Primary_response f \<in> set (head_listeners s)" by (simp add: head_listeners_def)
  then have ne: "head_listeners s \<noteq> []" by auto
  have i3: "shouldWriteHead s \<longrightarrow> head_listeners s = []"
    and i4: "\<not> shouldWriteHead s \<longrightarrow>
         (head_count tr = 1 \<and> head_listeners s = []) \<or> (\<exists>f. claimed_by f s tr es)"
    using inv unfolding handler_inv_def by blast+
  from ne i3 i4 obtain g where "claimed_by g s tr es" by blast
  then obtain x y z where c: "head_listeners s = some_of x y z g"
      "x \<longrightarrow> responseHeaders s = baseline_headers"
    unfolding claimed_by_def by blast
  from ph c(1) have xg: "x" "g = f" by (simp_all add: set_some_of_response)
  have fh: "filter is_head_listener ?fire = [Primary_response f]"
  proof -
    have "filter is_head_listener ?fire = filter ?P (head_listeners s)"
      by (simp add: head_listeners_def conj_commute)
    also have "\<dots> = [Primary_response f]"
      unfolding c(1) xg(2) using xg(1) by (simp add: filter_some_of some_of_def listens_def)
    finally show ?thesis .
  qed
  have nm: "\<forall>l \<in> set ?fire. listener_event l = ''response''" by (simp add: listens_def)
  have "filter is_head (snd (run_listeners opts ?ev ?fire ?s1)) =
      [WriteHead st (map_response_headers opts f hs (responseHeaders ?s1))]"
    using run_listeners_response [OF nm fh] .
  then show ?thesis using c(2) xg(1) by (simp add: Let_def)
qed

lemma status_after_meter [simp]:
  "statusCode (fst (meter_write n s)) = statusCode s"
  "statusCode (fst (pipe_result s)) = statusCode s"
  by (simp_all add: meter_write_def pipe_result_def)

lemma handleError_head_count:
  "head_count (snd (handleError e s)) = (if shouldWriteHead s then 1 else 0)"
  by (simp add: handleError_calls meter_end_calls head_count_def)

lemma step_status:
  assumes "head_count (snd (handle opts s e)) = 0"
  shows "statusCode (fst (handle opts s e)) = statusCode s"
proof (cases e)
  case (Context_settled r)
  then show ?thesis
    by (simp add: wire_def Let_def split_beta split: sum.splits option.splits)
next
  case (Template_settled r)
  show ?thesis
  proof (cases "templatePromise s = None \<and> isl r")
    case False
    with Template_settled show ?thesis
      by (cases r) (auto simp: wire_def Let_def split: option.splits)
  next
    case True
    then obtain er where r: "r = Inl er" by (cases r) auto
    let ?s1 = "s\<lparr> templatePromise := Some r \<rparr>"
    from assms Template_settled True r have "head_count (snd (handleError er ?s1)) = 0" by simp
    then have "\<not> shouldWriteHead ?s1" by (simp add: handleError_head_count split: if_splits)
    then have "statusCode (fst (handleError er ?s1)) = statusCode ?s1" by (rule handleError_state(2))
    with Template_settled True r show ?thesis by simp
  qed
next
  case (Fragment_found f)
  then show ?thesis by (simp add: handlePrimaryFragment_def Let_def)
next
  case (Fragment_emits i ev)
  let ?fire = "filter (listens i ev) (listeners s)"
  let ?s1 = "s\<lparr> listeners := filter (\<lambda>l. \<not> listens i ev l) (listeners s) \<rparr>"
  have nm: "\<forall>l \<in> set ?fire. listener_event l = event_name ev" by (simp add: listens_def)
  note eff = run_listeners_eff [OF nm, of opts ?s1 "fst (run_listeners opts ev ?fire ?s1)"
      "snd (run_listeners opts ev ?fire ?s1)"]
  from assms Fragment_emits have "head_count (snd (run_listeners opts ev ?fire ?s1)) = 0"
    by (simp add: Let_def)
  with eff have "fst (run_listeners opts ev ?fire ?s1) = ?s1" by simp
  with Fragment_emits show ?thesis by (simp add: Let_def)
next
  case Processor_finish
  show ?thesis
  proof (cases "wired s \<and> finish_pending s \<and> shouldWriteHead s")
    case False
    with Processor_finish show ?thesis by (auto simp: Let_def)
  next
    case True
    with assms Processor_finish have False
      by (simp add: Let_def split_beta writeHead_def head_count_def)
    then show ?thesis ..
  qed
next
  case (Processor_error er)
  show ?thesis
  proof (cases "wired s \<and> error_pending s")
    case False
    with Processor_error show ?thesis by auto
  next
    case True
    let ?s1 = "s\<lparr> error_pending := False \<rparr>"
    from assms Processor_error True have "head_count (snd (handleError er ?s1)) = 0" by simp
    then have "\<not> shouldWriteHead ?s1" by (simp add: handleError_head_count split: if_splits)
    then have "statusCode (fst (handleError er ?s1)) = statusCode ?s1" by (rule handleError_state(2))
    with Processor_error True show ?thesis by simp
  qed
next
  case (Processor_data n)
  then show ?thesis by simp
next
  case Processor_end
  then show ?thesis by simp
next
  case (Downstream_fails er)
  then show ?thesis by (simp add: meter_fail_def)
qed

lemma run_status:
  "head_count (snd (run opts s es)) = 0 \<Longrightarrow> statusCode (fst (run opts s es)) = statusCode s"
proof (induction es arbitrary: s)
  case Nil
  then show ?case by simp
next
  case (Cons e es)
  let ?s1 = "fst (handle opts s e)"
  from Cons.prems have h: "head_count (snd (handle opts s e)) = 0"
    and r: "head_count (snd (run opts ?s1 es)) = 0"
    by (simp_all add: split_beta head_count_append)
  from Cons.IH [OF r] step_status [OF h] show ?case by (simp add: split_beta)
qed

lemma get_prop_Object_assign:
  "get_prop (Object_assign rh src) k =
     (case map_of (rev src) k of Some v \<Rightarrow> Some v | None \<Rightarrow> get_prop rh k)"
proof (induction src rule: rev_induct)
  case Nil
  show ?case by (simp add: Object_assign_def)
next
  case (snoc x xs)
  obtain k' v' where x: "x = (k', v')" by (cases x)
  have "Object_assign rh (xs @ [x]) = set_prop k' v' (Object_assign rh xs)"
    by (simp add: Object_assign_def x)
  then show ?case using snoc.IH by (simp add: x get_prop_set_prop)
qed

text \<open>
  Claim C5, as the code has it. When the primary fragment that holds the head listeners
  responds, the head is written once, with the fragment's status and with the headers the
  listener makes of the baseline headers. In them every baseline header is present, with
  the value \<^verbatim>\<open>filterResponseHeaders\<close> returned for its name (the last one, if several)
  and with its baseline value if it returned none; \<^verbatim>\<open>location\<close> is the fragment's
  \<^verbatim>\<open>location\<close> when that is a non-empty string, and is otherwise what
  \<^verbatim>\<open>filterResponseHeaders\<close> returned for that name, absent if nothing. When the processor
  finishes while the latch is set, the head is written with the status the response had
  before, 200 if it had none, and with exactly the baseline headers.
\<close>

theorem response_envelope:
  assumes "processRequest opts sc es = (s, tr)"
  shows "(Primary_response f \<in> set (listeners s) \<longrightarrow>
            filter is_head (snd (handle opts s (Fragment_emits (fid f) (Ev_response st hs)))) =
              [WriteHead st (map_response_headers opts f hs baseline_headers)]
            \<and> (\<forall>(k, v) \<in> set baseline_headers.
                  get_prop (map_response_headers opts f hs baseline_headers) k =
                    Some (case map_of (rev (filtered opts f hs)) k of Some v' \<Rightarrow> v' | None \<Rightarrow> v))
            \<and> get_prop (map_response_headers opts f hs baseline_headers) ''location'' =
                (case get_prop hs ''location'' of
                   Some loc \<Rightarrow> if loc \<noteq> '''' then Some loc
                               else map_of (rev (filtered opts f hs)) ''location''
                 | None \<Rightarrow> map_of (rev (filtered opts f hs)) ''location''))
       \<and> (shouldWriteHead s \<and> wired s \<and> finish_pending s \<longrightarrow>
            take 3 (snd (handle opts s Processor_finish)) =
              [Emit_response (if sc \<noteq> 0 then sc else 200) baseline_headers,
               WriteHead (if sc \<noteq> 0 then sc else 200) baseline_headers, Pipe]
            \<and> head_count (snd (handle opts s Processor_finish)) = 1)"
proof -
  from inv_processRequest [OF assms(1)] obtain a where a: "tr = Emit_start # a"
    and r: "run opts (initial_state sc) es = (s, a)" and inv: "handler_inv s a es" by blast
  have A1: "Primary_response f \<in> set (listeners s) \<longrightarrow>
            filter is_head (snd (handle opts s (Fragment_emits (fid f) (Ev_response st hs)))) =
              [WriteHead st (map_response_headers opts f hs baseline_headers)]"
    using primary_response_head [OF inv] by blast
  have bk: "\<And>k v. (k, v) \<in> set baseline_headers \<Longrightarrow>
      k \<noteq> ''location'' \<and> k \<noteq> ''link'' \<and> get_prop baseline_headers k = Some v"
    by (auto simp: baseline_headers_def get_prop_def)
  have A2: "\<forall>(k, v) \<in> set baseline_headers.
                  get_prop (map_response_headers opts f hs baseline_headers) k =
                    Some (case map_of (rev (filtered opts f hs)) k of Some v' \<Rightarrow> v' | None \<Rightarrow> v)"
  proof clarify
    fix k v assume kv: "(k, v) \<in> set baseline_headers"
    note b = bk [OF kv]
    have e: "get_prop (map_response_headers opts f hs baseline_headers) k =
        get_prop (Object_assign baseline_headers (filtered opts f hs)) k"
      using b by (simp add: map_response_headers_other)
    show "get_prop (map_response_headers opts f hs baseline_headers) k =
        Some (case map_of (rev (filtered opts f hs)) k of Some v' \<Rightarrow> v' | None \<Rightarrow> v)"
      unfolding e get_prop_Object_assign using b by (simp split: option.splits)
  qed
  have bl: "get_prop baseline_headers ''location'' = None"
    by (simp add: baseline_headers_def get_prop_def)
  have A3: "get_prop (map_response_headers opts f hs baseline_headers) ''location'' =
                (case get_prop hs ''location'' of
                   Some loc \<Rightarrow> if loc \<noteq> '''' then Some loc
                               else map_of (rev (filtered opts f hs)) ''location''
                 | None \<Rightarrow> map_of (rev (filtered opts f hs)) ''location'')"
    unfolding map_response_headers_location get_prop_Object_assign bl
    by (simp split: option.splits)
  have B: "shouldWriteHead s \<and> wired s \<and> finish_pending s \<longrightarrow>
            take 3 (snd (handle opts s Processor_finish)) =
              [Emit_response (if sc \<noteq> 0 then sc else 200) baseline_headers,
               WriteHead (if sc \<noteq> 0 then sc else 200) baseline_headers, Pipe]
            \<and> head_count (snd (handle opts s Processor_finish)) = 1"
  proof
    assume h: "shouldWriteHead s \<and> wired s \<and> finish_pending s"
    have i3: "shouldWriteHead s \<longrightarrow> head_count a = 0 \<and> responseHeaders s = baseline_headers"
      using inv unfolding handler_inv_def by blast
    with h have z: "head_count a = 0" and rh: "responseHeaders s = baseline_headers" by simp_all
    from run_status [of opts "initial_state sc" es] r z have sc: "statusCode s = sc"
      by (simp add: initial_state_def)
    let ?sc = "if sc \<noteq> 0 then sc else 200"
    let ?s3 = "s\<lparr> finish_pending := False, shouldWriteHead := False, statusCode := ?sc \<rparr>"
    obtain post where p: "snd (pipe_result ?s3) = Pipe # post" "head_count (snd (pipe_result ?s3)) = 0"
      using pipe_result_eff [of ?s3 "fst (pipe_result ?s3)" "snd (pipe_result ?s3)"] by auto
    have "snd (handle opts s Processor_finish) =
        [Emit_response ?sc baseline_headers, WriteHead ?sc baseline_headers] @ snd (pipe_result ?s3)"
      using h sc rh by (cases "sc = 0"; simp add: Let_def split_beta writeHead_def)
    then show "take 3 (snd (handle opts s Processor_finish)) =
              [Emit_response ?sc baseline_headers, WriteHead ?sc baseline_headers, Pipe]
            \<and> head_count (snd (handle opts s Processor_finish)) = 1"
      using p by (simp add: head_count_def)
  qed
  from A1 A2 A3 B show ?thesis by blast
qed

theorem response_envelope_witness:
  "Primary_response \<lparr> fid = 1, attributes = \<lparr> primary = True, url = ''http://a/'' \<rparr> \<rparr>
     \<in> set (listeners (fst (processRequest
        \<lparr> filterResponseHeaders = None, maxAssetLinks = 1,
          LinkHeader_parse = (\<lambda>l. [\<lparr> rel = Some ''stylesheet'', uri = ''http://cdn/a.css'' \<rparr>]),
          the_request = \<lparr> req_headers = Some [] \<rparr> \<rparr> 0
        [Template_settled (Inr []), Context_settled (Inr []),
         Fragment_found \<lparr> fid = 1, attributes = \<lparr> primary = True, url = ''http://a/'' \<rparr> \<rparr>])))
   \<and> filter is_head (snd (handle
        \<lparr> filterResponseHeaders = None, maxAssetLinks = 1,
          LinkHeader_parse = (\<lambda>l. [\<lparr> rel = Some ''stylesheet'', uri = ''http://cdn/a.css'' \<rparr>]),
          the_request = \<lparr> req_headers = Some [] \<rparr> \<rparr>
        (fst (processRequest
          \<lparr> filterResponseHeaders = None, maxAssetLinks = 1,
            LinkHeader_parse = (\<lambda>l. [\<lparr> rel = Some ''stylesheet'', uri = ''http://cdn/a.css'' \<rparr>]),
            the_request = \<lparr> req_headers = Some [] \<rparr> \<rparr> 0
          [Template_settled (Inr []), Context_settled (Inr []),
           Fragment_found \<lparr> fid = 1, attributes = \<lparr> primary = True, url = ''http://a/'' \<rparr> \<rparr>]))
        (Fragment_emits 1 (Ev_response 301
           [(''location'', ''/x''), (''link'', ''<http://cdn/a.css>; rel=\"stylesheet\"'')]))))
     = [WriteHead 301
          [(''Cache-Control'', ''no-cache, no-store, must-revalidate''), (''Pragma'', ''no-cache''),
           (''Content-Type'', ''text/html''), (''location'', ''/x''),
           (''link'', ''<http://cdn/a.css>; rel=\"preload\"; as=\"style\"; nopush'')]]
   \<and> get_prop (map_response_headers
        \<lparr> filterResponseHeaders = None, maxAssetLinks = 1,
          LinkHeader_parse = (\<lambda>l. [\<lparr> rel = Some ''stylesheet'', uri = ''http://cdn/a.css'' \<rparr>]),
          the_request = \<lparr> req_headers = Some [] \<rparr> \<rparr>
        \<lparr> fid = 1, attributes = \<lparr> primary = True, url = ''http://a/'' \<rparr> \<rparr>
        [(''location'', ''/x''), (''link'', ''<http://cdn/a.css>; rel=\"stylesheet\"'')]
        baseline_headers) ''Content-Type'' = Some ''text/html''
   \<and> take 3 (snd (handle
        \<lparr> filterResponseHeaders = None, maxAssetLinks = 1,
          LinkHeader_parse = (\<lambda>l. [\<lparr> rel = Some ''stylesheet'', uri = ''http://cdn/a.css'' \<rparr>]),
          the_request = \<lparr> req_headers = Some [] \<rparr> \<rparr>
        (fst (processRequest
          \<lparr> filterResponseHeaders = None, maxAssetLinks = 1,
            LinkHeader_parse = (\<lambda>l. [\<lparr> rel = Some ''stylesheet'', uri = ''http://cdn/a.css'' \<rparr>]),
            the_request = \<lparr> req_headers = Some [] \<rparr> \<rparr> 0
          [Template_settled (Inr []), Context_settled (Inr [])]))
        Processor_finish))
     = [Emit_response 200 baseline_headers, WriteHead 200 baseline_headers, Pipe]"
proof -
  let ?o = "\<lparr> filterResponseHeaders = None, maxAssetLinks = 1,
          LinkHeader_parse = (\<lambda>l::string. [\<lparr> rel = Some ''stylesheet'', uri = ''http://cdn/a.css'' \<rparr>]),
          the_request = \<lparr> req_headers = Some [] \<rparr> \<rparr>"
  let ?f = "\<lparr> fid = 1, attributes = \<lparr> primary = True, url = ''http://a/'' \<rparr> \<rparr>"
  let ?hs = "[(''location'', ''/x''), (''link'', ''<http://cdn/a.css>; rel=\"stylesheet\"'')]"
  let ?p1 = "processRequest ?o 0 [Template_settled (Inr []), Context_settled (Inr []), Fragment_found ?f]"
  let ?p2 = "processRequest ?o 0 [Template_settled (Inr []), Context_settled (Inr [])]"
  have pr1: "?p1 = (fst ?p1, snd ?p1)" by simp
  have pr2: "?p2 = (fst ?p2, snd ?p2)" by simp
  have m: "Primary_response ?f \<in> set (listeners (fst ?p1))" by code_simp
  have l: "shouldWriteHead (fst ?p2) \<and> wired (fst ?p2) \<and> finish_pending (fst ?p2)" by code_simp
  have h: "map_response_headers ?o ?f ?hs baseline_headers =
      [(''Cache-Control'', ''no-cache, no-store, must-revalidate''), (''Pragma'', ''no-cache''),
       (''Content-Type'', ''text/html''), (''location'', ''/x''),
       (''link'', ''<http://cdn/a.css>; rel=\"preload\"; as=\"style\"; nopush'')]"
    by code_simp
  have fl: "filtered ?o ?f ?hs = []" by (simp add: filtered_def)
  have ct: "(''Content-Type'', ''text/html'') \<in> set baseline_headers"
    by (simp add: baseline_headers_def)
  have fid: "fid ?f = 1" by simp
  note w1 = response_envelope [OF pr1, of ?f 301 ?hs]
  note w2 = response_envelope [OF pr2, of ?f 301 ?hs]
  have a: "filter is_head (snd (handle ?o (fst ?p1) (Fragment_emits 1 (Ev_response 301 ?hs)))) =
      [WriteHead 301 (map_response_headers ?o ?f ?hs baseline_headers)]"
    using w1 m unfolding fid by blast
  have "\<forall>(k, v) \<in> set baseline_headers.
      get_prop (map_response_headers ?o ?f ?hs baseline_headers) k =
        Some (case map_of (rev (filtered ?o ?f ?hs)) k of Some v' \<Rightarrow> v' | None \<Rightarrow> v)"
    using w1 m by blast
  with ct have c: "get_prop (map_response_headers ?o ?f ?hs baseline_headers) ''Content-Type'' =
      Some ''text/html''"
    unfolding fl by auto
  have b: "take 3 (snd (handle ?o (fst ?p2) Processor_finish)) =
      [Emit_response 200 baseline_headers, WriteHead 200 baseline_headers, Pipe]"
    using w2 l by simp
  show ?thesis
    using m a b c unfolding h by (simp only: simp_thms)
qed

text \<open>
  Against the claim as the spec words it. A \<^verbatim>\<open>filterResponseHeaders\<close> that lets every
  header of the fragment through is a projection of them; when the fragment's response
  carries a \<^verbatim>\<open>Content-Type\<close> of its own, that value replaces the baseline one in the head.
  And when the fragment's response carries a \<^verbatim>\<open>location\<close> that is the empty string, the
  head has no \<^verbatim>\<open>location\<close>.
\<close>

theorem response_envelope_counterexample:
  "filter is_head (snd (processRequest
        \<lparr> filterResponseHeaders = Some (\<lambda>a hs. hs),
          maxAssetLinks = 1, LinkHeader_parse = (\<lambda>l. []),
          the_request = \<lparr> req_headers = Some [] \<rparr> \<rparr> 0
        [Template_settled (Inr []), Context_settled (Inr []),
         Fragment_found \<lparr> fid = 1, attributes = \<lparr> primary = True, url = ''http://a/'' \<rparr> \<rparr>,
         Fragment_emits 1 (Ev_response 200 [(''Content-Type'', ''application/json'')])]))
     = [WriteHead 200
          [(''Cache-Control'', ''no-cache, no-store, must-revalidate''), (''Pragma'', ''no-cache''),
           (''Content-Type'', ''application/json'')]]
   \<and> filter is_head (snd (processRequest
        \<lparr> filterResponseHeaders = None,
          maxAssetLinks = 1, LinkHeader_parse = (\<lambda>l. []),
          the_request = \<lparr> req_headers = Some [] \<rparr> \<rparr> 0
        [Template_settled (Inr []), Context_settled (Inr []),
         Fragment_found \<lparr> fid = 1, attributes = \<lparr> primary = True, url = ''http://a/'' \<rparr> \<rparr>,
         Fragment_emits 1 (Ev_response 302 [(''location'', '''')])]))
     = [WriteHead 302
          [(''Cache-Control'', ''no-cache, no-store, must-revalidate''), (''Pragma'', ''no-cache''),
           (''Content-Type'', ''text/html'')]]"
  by code_simp

section \<open>The Content-Length Meter and the end event\<close>

lemma end_count_append: "end_count (a @ b) = end_count a + end_count b"
  by (simp add: end_count_def)

lemma end_count_zero: "end_count tr = 0 \<Longrightarrow> Emit_end n \<notin> set tr"
  by (induction tr) (auto simp: end_count_def split: if_splits)

text \<open>A step that leaves the meter alone and emits no \<^verbatim>\<open>end\<close>.\<close>

lemma meter_inv_quiet:
  assumes "meter_inv s tr" "meter_ended s' = meter_ended s" "meter_count s' = meter_count s"
    "end_count a = 0" "piped s \<longrightarrow> piped s'"
  shows "meter_inv s' (tr @ a)"
  using assms end_count_zero [of a]
  by (auto simp: meter_inv_def end_count_append)

lemma meter_inv_end:
  assumes "meter_inv s tr" "meter_end s = (s', a)" "piped s \<or> Meter_end \<in> set tr"
  shows "meter_inv s' (tr @ a)"
proof (cases "meter_ended s")
  case True
  with assms(2) have "s' = s" "a = []" by (simp_all add: meter_end_def)
  with assms(1) show ?thesis by simp
next
  case False
  with assms(1) have z: "end_count tr = 0" by (simp add: meter_inv_def)
  from False assms(2) have e: "meter_ended s'" "meter_count s' = meter_count s"
    "end_count a = 1" "\<forall>n. Emit_end n \<in> set a \<longrightarrow> n = meter_count s" "piped s' = piped s"
    by (auto simp: meter_end_def end_count_def split: if_splits)
  show ?thesis
    using z e assms(3) end_count_zero [OF z] by (auto simp: meter_inv_def end_count_append)
qed

lemma meter_inv_fail:
  assumes "meter_inv s tr" "meter_fail s = (s', a)" "piped s"
  shows "meter_inv s' (tr @ a)"
proof (cases "meter_ended s")
  case True
  with assms(2) have "s' = s" "a = []" by (simp_all add: meter_fail_def)
  with assms(1) show ?thesis by simp
next
  case False
  with assms(1) have z: "end_count tr = 0" by (simp add: meter_inv_def)
  from False assms(2) have e: "meter_ended s'" "meter_count s' = meter_count s"
    "end_count a = 1" "\<forall>n. Emit_end n \<in> set a \<longrightarrow> n = meter_count s" "piped s' = piped s"
    by (auto simp: meter_fail_def end_count_def)
  show ?thesis
    using z e assms(3) end_count_zero [OF z] by (auto simp: meter_inv_def end_count_append)
qed

lemma meter_inv_write:
  assumes "meter_inv s tr" "meter_write n s = (s', a)"
  shows "meter_inv s' (tr @ a)"
proof (cases "meter_ended s")
  case True
  with assms(2) have "s' = s" "a = [Write_after_end]" by (simp_all add: meter_write_def)
  with assms(1) show ?thesis by (auto intro!: meter_inv_quiet simp: end_count_def)
next
  case False
  with assms(1) have z: "end_count tr = 0" by (simp add: meter_inv_def)
  from False assms(2) have e: "\<not> meter_ended s'" "end_count a = 0"
    by (auto simp: meter_write_def end_count_def)
  from assms(2) have p: "piped s' = piped s"
    using meter_write_eff [OF assms(2)] by simp
  show ?thesis
    using z e end_count_zero [OF z] end_count_zero [OF e(2)]
    by (auto simp: meter_inv_def end_count_append)
qed

lemma meter_fields [simp]:
  "meter_ended (fst (pipe_result s)) = meter_ended s" "meter_count (fst (pipe_result s)) = meter_count s"
  "end_count (snd (pipe_result s)) = 0" "filter is_end (snd (pipe_result s)) = []"
  by (simp_all add: pipe_result_def end_count_def)

lemma meter_inv_handleError:
  assumes "meter_inv s tr" "handleError e s = (s', a)"
  shows "meter_inv s' (tr @ a)"
proof (cases "shouldWriteHead s")
  case True
  from handleError_latched [OF True assms(2)] have a: "end_count a = 0" by (simp add: end_count_def)
  from True assms(2) have "meter_ended s' = meter_ended s" "meter_count s' = meter_count s"
    "piped s' = piped s"
    by (auto simp: handleError_def writeHead_def Let_def)
  with assms(1) a show ?thesis by (auto intro!: meter_inv_quiet)
next
  case False
  obtain s2 a2 where m: "meter_end s = (s2, a2)" by (cases "meter_end s")
  from handleError_unlatched [OF False assms(2)] m
  have s': "s' = s2" and a: "a = [Emit_error e, Meter_end] @ a2" by simp_all
  have "meter_inv s (tr @ [Emit_error e, Meter_end])"
    using assms(1) by (auto intro!: meter_inv_quiet simp: end_count_def)
  from meter_inv_end [OF this m] s' a show ?thesis by simp
qed

lemma piped_after_pipe [simp]: "piped (fst (pipe_result s))"
  by (simp add: pipe_result_def)


lemma meter_inv_listener:
  assumes "meter_inv s tr" "run_listener opts ev l s = (s', a)"
  shows "meter_inv s' (tr @ a)"
proof -
  have "meter_ended s' = meter_ended s \<and> meter_count s' = meter_count s \<and> end_count a = 0 \<and>
      (piped s \<longrightarrow> piped s')"
    using assms(2)
    by (cases l; cases ev)
       (auto simp: on_primary_response_def on_primary_fallback_def on_primary_error_def
          writeHead_def Let_def split_beta end_count_def)
  with assms(1) show ?thesis by (auto intro!: meter_inv_quiet)
qed

lemma meter_inv_listeners:
  assumes "meter_inv s tr" "run_listeners opts ev ls s = (s', a)"
  shows "meter_inv s' (tr @ a)"
  using assms
proof (induction ls arbitrary: s tr s' a)
  case Nil
  then show ?case by simp
next
  case (Cons l ls)
  obtain s1 a1 where r1: "run_listener opts ev l s = (s1, a1)" by (cases "run_listener opts ev l s")
  obtain s2 a2 where r2: "run_listeners opts ev ls s1 = (s2, a2)" by (cases "run_listeners opts ev ls s1")
  from Cons.prems(2) r1 r2 have eq: "s' = s2" "a = a1 @ a2" by simp_all
  from Cons.IH [OF meter_inv_listener [OF Cons.prems(1) r1] r2] eq show ?case by simp
qed

lemma meter_inv_step:
  assumes inv: "meter_inv s tr" and h: "handle opts s e = (s', a)"
  shows "meter_inv s' (tr @ a)"
proof (cases e)
  case (Context_settled r)
  with h have "meter_ended s' = meter_ended s \<and> meter_count s' = meter_count s \<and> end_count a = 0 \<and>
      (piped s \<longrightarrow> piped s')"
    by (auto simp: wire_def Let_def end_count_def split: if_splits sum.splits option.splits)
  with inv show ?thesis by (auto intro!: meter_inv_quiet)
next
  case (Template_settled r)
  show ?thesis
  proof (cases "templatePromise s = None \<and> isl r")
    case False
    with h Template_settled
    have "meter_ended s' = meter_ended s \<and> meter_count s' = meter_count s \<and> end_count a = 0 \<and>
      (piped s \<longrightarrow> piped s')"
      by (cases r) (auto simp: wire_def Let_def end_count_def split: if_splits option.splits)
    with inv show ?thesis by (auto intro!: meter_inv_quiet)
  next
    case True
    then obtain er where r: "r = Inl er" by (cases r) auto
    let ?s1 = "s\<lparr> templatePromise := Some r \<rparr>"
    have i1: "meter_inv ?s1 tr" using inv by (simp add: meter_inv_def)
    from h Template_settled True r have "handleError er ?s1 = (s', a)" by simp
    from meter_inv_handleError [OF i1 this] show ?thesis .
  qed
next
  case (Fragment_found f)
  with h have "meter_ended s' = meter_ended s \<and> meter_count s' = meter_count s \<and> end_count a = 0 \<and>
      (piped s \<longrightarrow> piped s')"
    by (auto simp: handlePrimaryFragment_def Let_def end_count_def split: if_splits)
  with inv show ?thesis by (auto intro!: meter_inv_quiet)
next
  case (Fragment_emits i ev)
  let ?s1 = "s\<lparr> listeners := filter (\<lambda>l. \<not> listens i ev l) (listeners s) \<rparr>"
  have i1: "meter_inv ?s1 tr" using inv by (simp add: meter_inv_def)
  from h Fragment_emits have "run_listeners opts ev (filter (listens i ev) (listeners s)) ?s1 = (s', a)"
    by (simp add: Let_def)
  from meter_inv_listeners [OF i1 this] show ?thesis .
next
  case Processor_finish
  with h have "meter_ended s' = meter_ended s \<and> meter_count s' = meter_count s \<and> end_count a = 0 \<and>
      (piped s \<longrightarrow> piped s')"
    by (auto simp: writeHead_def Let_def split_beta end_count_def split: if_splits)
  with inv show ?thesis by (auto intro!: meter_inv_quiet)
next
  case (Processor_error er)
  show ?thesis
  proof (cases "wired s \<and> error_pending s")
    case False
    with h Processor_error inv show ?thesis by auto
  next
    case True
    let ?s1 = "s\<lparr> error_pending := False \<rparr>"
    have i1: "meter_inv ?s1 tr" using inv by (simp add: meter_inv_def)
    from h Processor_error True have "handleError er ?s1 = (s', a)" by simp
    from meter_inv_handleError [OF i1 this] show ?thesis .
  qed
next
  case (Processor_data n)
  show ?thesis
  proof (cases "piped s")
    case False
    with h Processor_data inv show ?thesis by auto
  next
    case True
    with h Processor_data have "meter_write n s = (s', a)" by simp
    from meter_inv_write [OF inv this] show ?thesis .
  qed
next
  case Processor_end
  show ?thesis
  proof (cases "piped s")
    case False
    with h Processor_end inv show ?thesis by auto
  next
    case True
    with h Processor_end have "meter_end s = (s', a)" by simp
    from meter_inv_end [OF inv this] True show ?thesis by simp
  qed
next
  case (Downstream_fails er)
  show ?thesis
  proof (cases "piped s")
    case False
    with h Downstream_fails inv show ?thesis by auto
  next
    case True
    with h Downstream_fails have "meter_fail s = (s', a)" by simp
    from meter_inv_fail [OF inv this True] show ?thesis .
  qed
qed

lemma meter_inv_run:
  assumes "meter_inv s tr" "run opts s evs = (s', a)"
  shows "meter_inv s' (tr @ a)"
  using assms
proof (induction evs arbitrary: s tr a s')
  case Nil
  then show ?case by simp
next
  case (Cons e evs)
  obtain s1 a1 where st: "handle opts s e = (s1, a1)" by (cases "handle opts s e")
  obtain s2 a2 where ru: "run opts s1 evs = (s2, a2)" by (cases "run opts s1 evs")
  from Cons.prems(2) st ru have eq: "s' = s2" "a = a1 @ a2" by simp_all
  from Cons.IH [OF meter_inv_step [OF Cons.prems(1) st] ru] eq show ?case by simp
qed

lemma direct_bytes_append: "direct_bytes (a @ b) = direct_bytes a + direct_bytes b"
  by (induction a rule: direct_bytes.induct) simp_all

lemma direct_bytes_no_body: "\<forall>x \<in> set a. \<not> is_body x \<Longrightarrow> direct_bytes a = 0"
  by (induction a rule: direct_bytes.induct) simp_all

text \<open>A step that neither pipes nor writes nor ends anything.\<close>

lemma bytes_inv_quiet:
  assumes "bytes_inv s tr" "piped s' = piped s" "response_ended s' = response_ended s"
    "meter_ended s' = meter_ended s" "meter_count s' = meter_count s"
    "response_bytes s' = response_bytes s" "direct_bytes a = 0"
  shows "bytes_inv s' (tr @ a)"
  using assms by (simp add: bytes_inv_def direct_bytes_append)

lemma bytes_inv_meter_end:
  assumes "bytes_inv s tr" "meter_end s = (s', a)"
  shows "bytes_inv s' (tr @ a)"
  using assms
  by (auto simp: bytes_inv_def meter_end_def direct_bytes_append split: if_splits)

lemma bytes_inv_meter_write:
  assumes "bytes_inv s tr" "piped s" "meter_write n s = (s', a)"
  shows "bytes_inv s' (tr @ a)"
  using assms
  by (auto simp: bytes_inv_def meter_write_def direct_bytes_append split: if_splits)

lemma bytes_inv_pipe:
  assumes "bytes_inv s tr" "\<not> response_ended s" "pipe_result s = (s', a)"
  shows "bytes_inv s' (tr @ a)"
  using assms
  by (auto simp: bytes_inv_def pipe_result_def direct_bytes_append split: if_splits)

lemma bytes_inv_direct_end:
  assumes "bytes_inv s tr" "\<not> piped s" "\<not> response_ended s" "direct_bytes pre = 0"
  shows "bytes_inv (response_end b s) (tr @ pre @ [Response_end b])"
  using assms by (simp add: bytes_inv_def direct_bytes_append)

lemma bytes_inv_handleError:
  assumes b: "bytes_inv s tr" and u: "shouldWriteHead s \<longrightarrow> \<not> piped s \<and> \<not> response_ended s"
    and h: "handleError e s = (s', a)"
  shows "bytes_inv s' (tr @ a)"
proof (cases "shouldWriteHead s")
  case True
  let ?sc = "if code e = Some TEMPLATE_NOT_FOUND then 404 else 500"
  let ?b = "case presentable e of Some p \<Rightarrow> p | None \<Rightarrow> ''''"
  let ?s2 = "s\<lparr> shouldWriteHead := False, statusCode := ?sc \<rparr>"
  from True h have s': "s' = response_end ?b ?s2"
    and a: "a = [Emit_error e, WriteHead ?sc (responseHeaders s)] @ [Response_end ?b]"
    by (simp_all add: handleError_def writeHead_def Let_def)
  have b2: "bytes_inv ?s2 tr" using b by (simp add: bytes_inv_def)
  have "bytes_inv (response_end ?b ?s2) (tr @ [Emit_error e, WriteHead ?sc (responseHeaders s)] @ [Response_end ?b])"
    using u True by (intro bytes_inv_direct_end [OF b2]) simp_all
  then show ?thesis unfolding s' a .
next
  case False
  obtain s2 a2 where m: "meter_end s = (s2, a2)" by (cases "meter_end s")
  from handleError_unlatched [OF False h] m
  have s': "s' = s2" and a: "a = [Emit_error e, Meter_end] @ a2" by simp_all
  have "bytes_inv s (tr @ [Emit_error e, Meter_end])"
    using b by (intro bytes_inv_quiet) simp_all
  from bytes_inv_meter_end [OF this m] s' a show ?thesis by simp
qed

lemma bytes_inv_listener:
  assumes b: "bytes_inv s tr" and u: "is_head_listener l \<longrightarrow> \<not> piped s \<and> \<not> response_ended s"
    and r: "run_listener opts ev l s = (s', a)"
  shows "bytes_inv s' (tr @ a)"
proof -
  consider (quiet) "s' = s" "direct_bytes a = 0"
    | (resp) f sc hs where "l = Primary_response f" "ev = Ev_response sc hs"
    | (fall) f e where "l = Primary_fallback f" "ev = Ev_fallback e"
    | (err) f e where "l = Primary_error f" "ev = Ev_error e"
    using r by (cases l; cases ev) auto
  then show ?thesis
  proof cases
    case quiet
    with b show ?thesis by (simp add: bytes_inv_def direct_bytes_append)
  next
    case resp
    let ?s2 = "s\<lparr> responseHeaders := map_response_headers opts f hs (responseHeaders s), statusCode := sc \<rparr>"
    let ?pre = "[Emit_response sc (map_response_headers opts f hs (responseHeaders s)),
                 WriteHead sc (map_response_headers opts f hs (responseHeaders s))]"
    obtain s3 a3 where p: "pipe_result ?s2 = (s3, a3)" by (cases "pipe_result ?s2")
    from r resp p have s': "s' = s3" and a: "a = ?pre @ a3"
      by (simp_all add: on_primary_response_def writeHead_def Let_def)
    have "bytes_inv ?s2 (tr @ ?pre)" using b by (simp add: bytes_inv_def direct_bytes_append)
    moreover have "\<not> response_ended ?s2" using u resp by simp
    ultimately have "bytes_inv s3 ((tr @ ?pre) @ a3)" using p by (rule bytes_inv_pipe)
    then show ?thesis unfolding s' a by simp
  next
    case fall
    let ?s2 = "s\<lparr> statusCode := 500 \<rparr>"
    let ?pre = "[Emit_error e, WriteHead 500 (responseHeaders s)]"
    obtain s3 a3 where p: "pipe_result ?s2 = (s3, a3)" by (cases "pipe_result ?s2")
    from r fall p have s': "s' = s3" and a: "a = ?pre @ a3"
      by (simp_all add: on_primary_fallback_def writeHead_def Let_def)
    have "bytes_inv ?s2 (tr @ ?pre)" using b by (simp add: bytes_inv_def direct_bytes_append)
    moreover have "\<not> response_ended ?s2" using u fall by simp
    ultimately have "bytes_inv s3 ((tr @ ?pre) @ a3)" using p by (rule bytes_inv_pipe)
    then show ?thesis unfolding s' a by simp
  next
    case err
    let ?s2 = "s\<lparr> statusCode := 500 \<rparr>"
    from r err have s': "s' = response_end '''' ?s2"
      and a: "a = [Emit_error e, WriteHead 500 (responseHeaders s)] @ [Response_end '''']"
      by (simp_all add: on_primary_error_def writeHead_def Let_def)
    have b2: "bytes_inv ?s2 tr" using b by (simp add: bytes_inv_def)
    have "bytes_inv (response_end '''' ?s2) (tr @ [Emit_error e, WriteHead 500 (responseHeaders s)] @ [Response_end ''''])"
      using u err by (intro bytes_inv_direct_end [OF b2]) simp_all
    then show ?thesis unfolding s' a .
  qed
qed

lemma bytes_inv_listeners:
  assumes "bytes_inv s tr" "\<forall>l \<in> set ls. listener_event l = event_name ev"
    and "length (filter is_head_listener ls) \<le> 1"
    and "filter is_head_listener ls \<noteq> [] \<longrightarrow> \<not> piped s \<and> \<not> response_ended s"
    and "run_listeners opts ev ls s = (s', a)"
  shows "bytes_inv s' (tr @ a)"
  using assms
proof (induction ls arbitrary: s tr s' a)
  case Nil
  then show ?case by simp
next
  case (Cons l ls)
  obtain s1 a1 where r1: "run_listener opts ev l s = (s1, a1)" by (cases "run_listener opts ev l s")
  obtain s2 a2 where r2: "run_listeners opts ev ls s1 = (s2, a2)" by (cases "run_listeners opts ev ls s1")
  from Cons.prems(5) r1 r2 have eq: "s' = s2" "a = a1 @ a2" by simp_all
  have nm: "listener_event l = event_name ev" and nms: "\<forall>l \<in> set ls. listener_event l = event_name ev"
    using Cons.prems(2) by simp_all
  have u: "is_head_listener l \<longrightarrow> \<not> piped s \<and> \<not> response_ended s"
    using Cons.prems(4) by simp
  note b1 = bytes_inv_listener [OF Cons.prems(1) u r1]
  have le: "length (filter is_head_listener ls) \<le> 1" using Cons.prems(3) by (simp split: if_splits)
  have u2: "filter is_head_listener ls \<noteq> [] \<longrightarrow> \<not> piped s1 \<and> \<not> response_ended s1"
  proof
    assume ne: "filter is_head_listener ls \<noteq> []"
    with Cons.prems(3) have nh: "\<not> is_head_listener l" by (auto split: if_splits)
    with run_listener_eff [OF nm r1] have "s1 = s" by simp
    with ne Cons.prems(4) nh show "\<not> piped s1 \<and> \<not> response_ended s1" by simp
  qed
  from Cons.IH [OF b1 nms le u2 r2] eq show ?case by simp
qed

lemma bytes_inv_step:
  assumes hi: "handler_inv s tr es" and b: "bytes_inv s tr" and h: "handle opts s e = (s', a)"
    and le: "head_count (tr @ a) \<le> 1"
  shows "bytes_inv s' (tr @ a)"
proof -
  have i2: "head_count tr = 0 \<longrightarrow> \<not> piped s \<and> \<not> response_ended s"
    and i3: "shouldWriteHead s \<longrightarrow> head_count tr = 0"
    using hi unfolding handler_inv_def by blast+
  then have u: "shouldWriteHead s \<longrightarrow> \<not> piped s \<and> \<not> response_ended s" by simp
  show ?thesis
  proof (cases e)
    case (Context_settled r)
    with h have "piped s' = piped s \<and> response_ended s' = response_ended s \<and>
        meter_ended s' = meter_ended s \<and> meter_count s' = meter_count s \<and>
        response_bytes s' = response_bytes s \<and> direct_bytes a = 0"
      by (auto simp: wire_def Let_def split: if_splits sum.splits option.splits)
    with b show ?thesis by (auto intro!: bytes_inv_quiet)
  next
    case (Template_settled r)
    show ?thesis
    proof (cases "templatePromise s = None \<and> isl r")
      case False
      with h Template_settled have "piped s' = piped s \<and> response_ended s' = response_ended s \<and>
        meter_ended s' = meter_ended s \<and> meter_count s' = meter_count s \<and>
        response_bytes s' = response_bytes s \<and> direct_bytes a = 0"
        by (cases r) (auto simp: wire_def Let_def split: if_splits option.splits)
      with b show ?thesis by (auto intro!: bytes_inv_quiet)
    next
      case True
      then obtain er where r: "r = Inl er" by (cases r) auto
      let ?s1 = "s\<lparr> templatePromise := Some r \<rparr>"
      have b1: "bytes_inv ?s1 tr" using b by (simp add: bytes_inv_def)
      have u1: "shouldWriteHead ?s1 \<longrightarrow> \<not> piped ?s1 \<and> \<not> response_ended ?s1" using u by simp
      from h Template_settled True r have "handleError er ?s1 = (s', a)" by simp
      from bytes_inv_handleError [OF b1 u1 this] show ?thesis .
    qed
  next
    case (Fragment_found f)
    with h have "piped s' = piped s \<and> response_ended s' = response_ended s \<and>
        meter_ended s' = meter_ended s \<and> meter_count s' = meter_count s \<and>
        response_bytes s' = response_bytes s \<and> direct_bytes a = 0"
      by (auto simp: handlePrimaryFragment_def Let_def split: if_splits)
    with b show ?thesis by (auto intro!: bytes_inv_quiet)
  next
    case (Fragment_emits i ev)
    let ?fire = "filter (listens i ev) (listeners s)"
    let ?s1 = "s\<lparr> listeners := filter (\<lambda>l. \<not> listens i ev l) (listeners s) \<rparr>"
    from h Fragment_emits have r: "run_listeners opts ev ?fire ?s1 = (s', a)" by (simp add: Let_def)
    have nm: "\<forall>l \<in> set ?fire. listener_event l = event_name ev" by (simp add: listens_def)
    have hc: "head_count a = length (filter is_head_listener ?fire)"
      using run_listeners_eff [OF nm r] by simp
    have b1: "bytes_inv ?s1 tr" using b by (simp add: bytes_inv_def)
    have l1: "length (filter is_head_listener ?fire) \<le> 1"
      using le hc by (simp add: head_count_append)
    have u1: "filter is_head_listener ?fire \<noteq> [] \<longrightarrow> \<not> piped ?s1 \<and> \<not> response_ended ?s1"
    proof
      assume "filter is_head_listener ?fire \<noteq> []"
      then have "head_count a \<noteq> 0" using hc by simp
      with le have "head_count tr = 0" by (simp add: head_count_append)
      with i2 show "\<not> piped ?s1 \<and> \<not> response_ended ?s1" by simp
    qed
    from bytes_inv_listeners [OF b1 nm l1 u1 r] show ?thesis .
  next
    case Processor_finish
    show ?thesis
    proof (cases "wired s \<and> finish_pending s \<and> shouldWriteHead s")
      case False
      with h Processor_finish have "piped s' = piped s \<and> response_ended s' = response_ended s \<and>
        meter_ended s' = meter_ended s \<and> meter_count s' = meter_count s \<and>
        response_bytes s' = response_bytes s \<and> direct_bytes a = 0"
        by (auto simp: Let_def split: if_splits)
      with b show ?thesis by (auto intro!: bytes_inv_quiet)
    next
      case True
      let ?sc = "if statusCode s \<noteq> 0 then statusCode s else 200"
      let ?s3 = "s\<lparr> finish_pending := False, shouldWriteHead := False, statusCode := ?sc \<rparr>"
      let ?pre = "[Emit_response ?sc (responseHeaders s), WriteHead ?sc (responseHeaders s)]"
      obtain s4 a4 where p: "pipe_result ?s3 = (s4, a4)" by (cases "pipe_result ?s3")
      from h Processor_finish True p have s': "s' = s4" and a: "a = ?pre @ a4"
        by (cases "statusCode s = 0"; simp add: writeHead_def Let_def)+
      have "bytes_inv ?s3 (tr @ ?pre)" using b by (simp add: bytes_inv_def direct_bytes_append)
      moreover have "\<not> response_ended ?s3" using u True by simp
      ultimately have "bytes_inv s4 ((tr @ ?pre) @ a4)" using p by (rule bytes_inv_pipe)
      then show ?thesis unfolding s' a by simp
    qed
  next
    case (Processor_error er)
    show ?thesis
    proof (cases "wired s \<and> error_pending s")
      case False
      with h Processor_error b show ?thesis by auto
    next
      case True
      let ?s1 = "s\<lparr> error_pending := False \<rparr>"
      have b1: "bytes_inv ?s1 tr" using b by (simp add: bytes_inv_def)
      have u1: "shouldWriteHead ?s1 \<longrightarrow> \<not> piped ?s1 \<and> \<not> response_ended ?s1" using u by simp
      from h Processor_error True have "handleError er ?s1 = (s', a)" by simp
      from bytes_inv_handleError [OF b1 u1 this] show ?thesis .
    qed
  next
    case (Processor_data n)
    show ?thesis
    proof (cases "piped s")
      case False
      with h Processor_data b show ?thesis by auto
    next
      case True
      with h Processor_data have "meter_write n s = (s', a)" by simp
      from bytes_inv_meter_write [OF b True this] show ?thesis .
    qed
  next
    case Processor_end
    show ?thesis
    proof (cases "piped s")
      case False
      with h Processor_end b show ?thesis by auto
    next
      case True
      with h Processor_end have "meter_end s = (s', a)" by simp
      from bytes_inv_meter_end [OF b this] show ?thesis .
    qed
  next
    case (Downstream_fails er)
    with h b show ?thesis
      by (auto simp: bytes_inv_def meter_fail_def direct_bytes_append split: if_splits)
  qed
qed

lemma bytes_inv_run:
  assumes "handler_inv s tr es" "bytes_inv s tr" "run opts s evs = (s', a)" "head_count (tr @ a) \<le> 1"
  shows "bytes_inv s' (tr @ a)"
  using assms
proof (induction evs arbitrary: s tr es a s')
  case Nil
  then show ?case by simp
next
  case (Cons e evs)
  obtain s1 a1 where st: "handle opts s e = (s1, a1)" by (cases "handle opts s e")
  obtain s2 a2 where ru: "run opts s1 evs = (s2, a2)" by (cases "run opts s1 evs")
  from Cons.prems(3) st ru have eq: "s' = s2" "a = a1 @ a2" by simp_all
  have le1: "head_count (tr @ a1) \<le> 1" and le2: "head_count ((tr @ a1) @ a2) \<le> 1"
    using Cons.prems(4) eq by (simp_all add: head_count_append)
  note h1 = inv_step [OF Cons.prems(1) st]
  note b1 = bytes_inv_step [OF Cons.prems(1) Cons.prems(2) st le1]
  from Cons.IH [OF h1 b1 ru le2] eq show ?case by simp
qed

lemma run_listener_meter:
  "meter_ended (fst (run_listener opts ev l s)) = meter_ended s"
  by (cases l; cases ev)
     (simp_all add: on_primary_response_def on_primary_fallback_def on_primary_error_def
        writeHead_def Let_def split_beta)

lemma run_listeners_meter:
  "meter_ended (fst (run_listeners opts ev ls s)) = meter_ended s"
  by (induction ls arbitrary: s) (simp_all add: split_beta run_listener_meter)

lemma run_listener_context:
  "contextPromise (fst (run_listener opts ev l s)) = contextPromise s"
  by (cases l; cases ev)
     (simp_all add: on_primary_response_def on_primary_fallback_def on_primary_error_def
        writeHead_def pipe_result_def Let_def split_beta)

lemma run_listeners_context:
  "contextPromise (fst (run_listeners opts ev ls s)) = contextPromise s"
  by (induction ls arbitrary: s) (simp_all add: split_beta run_listener_context)

lemma handleError_meter:
  "meter_ended (fst (handleError e s)) = (meter_ended s \<or> \<not> shouldWriteHead s)"
  by (simp add: handleError_def writeHead_def meter_end_def Let_def split_beta)

lemma meter_closed_iff:
  assumes "templatePromise s = None \<longrightarrow> shouldWriteHead s"
  shows "meter_ended (fst (handle opts s ev)) \<longleftrightarrow> meter_ended s \<or> closes s ev"
proof (cases ev)
  case (Context_settled r)
  then show ?thesis
    by (simp add: wire_def Let_def split_beta split: sum.splits option.splits)
next
  case (Template_settled r)
  then show ?thesis using assms
    by (cases r) (auto simp: wire_def Let_def handleError_meter split: option.splits)
next
  case (Fragment_found f)
  then show ?thesis by (simp add: handlePrimaryFragment_def Let_def)
next
  case (Fragment_emits i fe)
  then show ?thesis by (simp add: Let_def run_listeners_meter)
next
  case Processor_finish
  then show ?thesis by (simp add: Let_def split_beta writeHead_def)
next
  case (Processor_error er)
  then show ?thesis by (auto simp: handleError_meter)
next
  case (Processor_data n)
  then show ?thesis by (simp add: meter_write_def)
next
  case Processor_end
  then show ?thesis by (simp add: meter_end_def)
next
  case (Downstream_fails er)
  then show ?thesis by (simp add: meter_fail_def)
qed

lemma wiring_inv_initial: "wiring_inv (initial_state sc)"
  by (simp add: wiring_inv_def initial_state_def)

lemma wiring_inv_handleError:
  assumes "wiring_inv s" "shouldWriteHead s \<or> wired s" "templatePromise s \<noteq> None"
  shows "wiring_inv (fst (handleError e s))"
  using assms
  by (auto simp: wiring_inv_def handleError_def writeHead_def meter_end_def Let_def split_beta)

lemma wiring_inv_step:
  assumes inv: "wiring_inv s"
  shows "wiring_inv (fst (handle opts s ev))"
proof (cases ev)
  case (Context_settled r)
  then show ?thesis using inv
    by (auto simp: wiring_inv_def wire_def Let_def split_beta split: sum.splits option.splits)
next
  case (Template_settled r)
  show ?thesis
  proof (cases "templatePromise s = None")
    case False
    with Template_settled inv show ?thesis by simp
  next
    case True
    show ?thesis
    proof (cases r)
      case (Inr t)
      with Template_settled True inv show ?thesis
        by (auto simp: wiring_inv_def wire_def Let_def split: option.splits)
    next
      case (Inl e)
      let ?s1 = "s\<lparr> templatePromise := Some (Inl e) \<rparr>"
      have nw: "\<not> wired s" using inv True by (auto simp: wiring_inv_def)
      have l: "shouldWriteHead s" using inv True by (simp add: wiring_inv_def)
      have "wiring_inv (fst (handleError e ?s1))"
        using inv nw l
        by (auto simp: wiring_inv_def handleError_def writeHead_def Let_def split_beta)
      with Template_settled True Inl show ?thesis by simp
    qed
  qed
next
  case (Fragment_found f)
  then show ?thesis using inv
    by (auto simp: wiring_inv_def handlePrimaryFragment_def Let_def)
next
  case (Fragment_emits i fe)
  let ?fire = "filter (listens i fe) (listeners s)"
  let ?s1 = "s\<lparr> listeners := filter (\<lambda>l. \<not> listens i fe l) (listeners s) \<rparr>"
  have nm: "\<forall>l \<in> set ?fire. listener_event l = event_name fe" by (simp add: listens_def)
  note eff = run_listeners_eff [OF nm, of opts ?s1 "fst (run_listeners opts fe ?fire ?s1)"
      "snd (run_listeners opts fe ?fire ?s1)"]
  show ?thesis
  proof (cases "wired s")
    case True
    have "contextPromise (fst (run_listeners opts fe ?fire ?s1)) = contextPromise s"
      by (simp add: run_listeners_context)
    with True inv eff Fragment_emits show ?thesis by (simp add: wiring_inv_def Let_def)
  next
    case False
    with inv have "listeners s = []" by (simp add: wiring_inv_def)
    then have "fst (handle opts s (Fragment_emits i fe)) = s" by (simp add: Let_def)
    with inv Fragment_emits show ?thesis by simp
  qed
next
  case Processor_finish
  then show ?thesis using inv
    by (auto simp: wiring_inv_def Let_def split_beta writeHead_def pipe_result_def)
next
  case (Processor_error er)
  show ?thesis
  proof (cases "wired s \<and> error_pending s")
    case False
    with Processor_error inv show ?thesis by auto
  next
    case True
    then show ?thesis using inv Processor_error
      by (auto simp: wiring_inv_def handleError_def writeHead_def meter_end_def Let_def split_beta)
  qed
next
  case (Processor_data n)
  then show ?thesis using inv by (auto simp: wiring_inv_def meter_write_def)
next
  case Processor_end
  then show ?thesis using inv by (auto simp: wiring_inv_def meter_end_def)
next
  case (Downstream_fails er)
  then show ?thesis using inv by (auto simp: wiring_inv_def meter_fail_def)
qed

lemma wiring_inv_run:
  "wiring_inv s \<Longrightarrow> wiring_inv (fst (run opts s es))"
proof (induction es arbitrary: s)
  case Nil
  then show ?case by simp
next
  case (Cons e es)
  from Cons.IH [OF wiring_inv_step [OF Cons.prems, of opts e]] show ?case
    by (simp add: split_beta)
qed


lemma run_listener_direct:
  "direct_bytes (snd (run_listener opts ev l s)) = 0"
  by (cases l; cases ev)
     (simp_all add: on_primary_response_def on_primary_fallback_def on_primary_error_def
        writeHead_def pipe_result_def Let_def split_beta)

lemma run_listeners_direct:
  "direct_bytes (snd (run_listeners opts ev ls s)) = 0"
  by (induction ls arbitrary: s) (simp_all add: split_beta run_listener_direct direct_bytes_append)

lemma direct_inv_quiet:
  assumes "direct_inv s tr" "shouldWriteHead s' = shouldWriteHead s" "head_listeners s' = head_listeners s"
    "piped s' = piped s" "meter_ended s' = meter_ended s" "wired s' = wired s"
    "error_pending s' \<longrightarrow> error_pending s" "templatePromise s' = templatePromise s"
    "direct_bytes a = 0"
  shows "direct_inv s' (tr @ a)"
  using assms by (auto simp: direct_inv_def direct_bytes_append)

lemma direct_inv_initial: "direct_inv (initial_state sc) []"
  by (simp add: direct_inv_def initial_state_def)


lemma direct_inv_handleError:
  assumes d: "direct_inv s tr" and np: "shouldWriteHead s \<longrightarrow> head_listeners s = [] \<and> \<not> piped s"
    and w: "wired s \<longrightarrow> \<not> error_pending s"
    and nw: "\<not> wired s \<longrightarrow> (\<exists>e. templatePromise s = Some (Inl e))"
    and dz: "\<not> shouldWriteHead s \<longrightarrow> direct_bytes tr = 0"
  shows "direct_inv (fst (handleError e s)) (tr @ snd (handleError e s))"
proof (cases "shouldWriteHead s")
  case True
  from handleError_latched [OF True, of e "fst (handleError e s)" "snd (handleError e s)"]
  have f: "\<not> shouldWriteHead (fst (handleError e s))" "listeners (fst (handleError e s)) = listeners s"
    "piped (fst (handleError e s)) = piped s" "wired (fst (handleError e s)) = wired s"
    "templatePromise (fst (handleError e s)) = templatePromise s"
    by simp_all
  have m: "meter_ended (fst (handleError e s)) = meter_ended s"
    "error_pending (fst (handleError e s)) = error_pending s"
    using True by (simp_all add: handleError_def writeHead_def Let_def split_beta)
  have hl: "head_listeners (fst (handleError e s)) = head_listeners s"
    using f(2) by (rule head_listeners_cong)
  show ?thesis
    using d True np w nw f m hl by (auto simp: direct_inv_def)
next
  case False
  then have z: "direct_bytes tr = 0" using dz by simp
  have a: "direct_bytes (snd (handleError e s)) = 0"
    using False by (simp add: handleError_calls meter_end_calls)
  have l: "\<not> shouldWriteHead (fst (handleError e s))" by simp
  show ?thesis
    using z a l by (simp add: direct_inv_def direct_bytes_append)
qed

lemma direct_inv_step:
  assumes hi: "handler_inv s tr es" and wi: "wiring_inv s" and d: "direct_inv s tr"
  shows "direct_inv (fst (handle opts s ev)) (tr @ snd (handle opts s ev))"
proof -
  have i2: "head_count tr = 0 \<longrightarrow> \<not> piped s"
    and i3: "shouldWriteHead s \<longrightarrow> head_count tr = 0 \<and> head_listeners s = []"
    using hi unfolding handler_inv_def by blast+
  then have lp: "shouldWriteHead s \<longrightarrow> head_listeners s = [] \<and> \<not> piped s" by simp
  have w1: "wired s \<longrightarrow> (\<exists>t. templatePromise s = Some (Inr t)) \<and> contextPromise s \<noteq> None"
    and w3: "templatePromise s = None \<longrightarrow> shouldWriteHead s"
    using wi by (simp_all add: wiring_inv_def)
  have d1: "shouldWriteHead s \<longrightarrow> \<not> meter_ended s \<and> direct_bytes tr = 0"
    and d2: "direct_bytes tr \<noteq> 0 \<longrightarrow>
         \<not> shouldWriteHead s \<and> head_listeners s = [] \<and> \<not> piped s \<and> \<not> meter_ended s \<and>
         (wired s \<longrightarrow> \<not> error_pending s) \<and>
         (\<not> wired s \<longrightarrow> (\<exists>e. templatePromise s = Some (Inl e)))"
    using d by (simp_all add: direct_inv_def)
  show ?thesis
  proof (cases ev)
    case (Context_settled r)
    show ?thesis
    proof (cases "direct_bytes tr = 0")
      case True
      with d1 Context_settled show ?thesis
        by (auto simp: direct_inv_def wire_def Let_def split_beta direct_bytes_append
            split: sum.splits option.splits)
    next
      case False
      with d2 w1 have "\<not> (\<exists>t. templatePromise s = Some (Inr t)) \<or> wired s" by auto
      then show ?thesis
        using d2 False Context_settled w1
        by (auto simp: direct_inv_def wire_def Let_def split_beta direct_bytes_append head_listeners_def
            split: sum.splits option.splits)
    qed
  next
    case (Template_settled r)
    show ?thesis
    proof (cases "templatePromise s = None")
      case False
      with Template_settled d show ?thesis by simp
    next
      case True
      with w3 have l: "shouldWriteHead s" by simp
      with d1 have z: "direct_bytes tr = 0" "\<not> meter_ended s" by simp_all
      have nw: "\<not> wired s" using True w1 by auto
      show ?thesis
      proof (cases r)
        case (Inr t)
        with Template_settled True l z show ?thesis
          by (auto simp: direct_inv_def wire_def Let_def direct_bytes_append split: option.splits)
      next
        case (Inl e)
        let ?s1 = "s\<lparr> templatePromise := Some (Inl e) \<rparr>"
        have d': "direct_inv ?s1 tr" using l z by (simp add: direct_inv_def)
        have "direct_inv (fst (handleError e ?s1)) (tr @ snd (handleError e ?s1))"
          using lp nw l
          by (intro direct_inv_handleError [OF d']) (simp_all add: head_listeners_def)
        with Template_settled True Inl show ?thesis by simp
      qed
    qed
  next
    case (Fragment_found f)
    show ?thesis
    proof (cases "direct_bytes tr = 0")
      case True
      with d1 Fragment_found show ?thesis
        by (auto simp: direct_inv_def handlePrimaryFragment_def Let_def)
    next
      case False
      with d2 have "\<not> shouldWriteHead s" by simp
      with Fragment_found d2 False show ?thesis
        by (auto simp: direct_inv_def handlePrimaryFragment_def Let_def head_listeners_def
            head_listeners_reemit)
    qed
  next
    case (Fragment_emits i fe)
    let ?fire = "filter (listens i fe) (listeners s)"
    let ?s1 = "s\<lparr> listeners := filter (\<lambda>l. \<not> listens i fe l) (listeners s) \<rparr>"
    let ?r = "run_listeners opts fe ?fire ?s1"
    have h: "handle opts s ev = ?r" using Fragment_emits by (simp add: Let_def)
    have nm: "\<forall>l \<in> set ?fire. listener_event l = event_name fe" by (simp add: listens_def)
    note eff = run_listeners_eff [OF nm, of opts ?s1 "fst ?r" "snd ?r"]
    have a0: "direct_bytes (snd ?r) = 0" by (rule run_listeners_direct)
    have me: "meter_ended (fst ?r) = meter_ended s" by (simp add: run_listeners_meter)
    have la: "shouldWriteHead (fst ?r) = shouldWriteHead s" using eff by simp
    show ?thesis
    proof (cases "direct_bytes tr = 0")
      case True
      with d1 a0 me la show ?thesis
        unfolding h by (simp add: direct_inv_def direct_bytes_append)
    next
      case False
      with d2 have hl: "head_listeners s = []" by simp
      then have "filter is_head_listener ?fire = []"
        by (simp add: head_listeners_def filter_empty_conv)
      with eff have "fst ?r = ?s1" by simp
      then show ?thesis
        unfolding h using d2 False a0 hl
        by (simp add: direct_inv_def direct_bytes_append head_listeners_def filter_empty_conv)
    qed
  next
    case Processor_finish
    show ?thesis
    proof (cases "direct_bytes tr = 0")
      case True
      with d1 Processor_finish show ?thesis
        by (auto simp: direct_inv_def Let_def split_beta writeHead_def pipe_result_def
            direct_bytes_append)
    next
      case False
      with d2 Processor_finish show ?thesis
        by (auto simp: direct_inv_def Let_def head_listeners_def)
    qed
  next
    case (Processor_error er)
    show ?thesis
    proof (cases "wired s \<and> error_pending s")
      case False
      with Processor_error d show ?thesis by auto
    next
      case True
      let ?s1 = "s\<lparr> error_pending := False \<rparr>"
      from True d2 have z: "direct_bytes tr = 0" by auto
      have d': "direct_inv ?s1 tr" using d z by (simp add: direct_inv_def)
      have "direct_inv (fst (handleError er ?s1)) (tr @ snd (handleError er ?s1))"
        using lp True z
        by (intro direct_inv_handleError [OF d']) (simp_all add: head_listeners_def)
      with Processor_error True show ?thesis by simp
    qed
  next
    case (Processor_data n)
    show ?thesis
    proof (cases "piped s")
      case False
      with Processor_data d show ?thesis by simp
    next
      case True
      with d1 d2 lp have "direct_bytes tr = 0" "\<not> shouldWriteHead s" by auto
      with Processor_data True show ?thesis
        by (auto simp: direct_inv_def meter_write_def direct_bytes_append)
    qed
  next
    case Processor_end
    show ?thesis
    proof (cases "piped s")
      case False
      with Processor_end d show ?thesis by simp
    next
      case True
      with d1 d2 lp have "direct_bytes tr = 0" "\<not> shouldWriteHead s" by auto
      with Processor_end True show ?thesis
        by (auto simp: direct_inv_def meter_end_def direct_bytes_append)
    qed
  next
    case (Downstream_fails er)
    show ?thesis
    proof (cases "piped s")
      case False
      with Downstream_fails d show ?thesis by simp
    next
      case True
      with d1 d2 lp have "direct_bytes tr = 0" "\<not> shouldWriteHead s" by auto
      with Downstream_fails True show ?thesis
        by (auto simp: direct_inv_def meter_fail_def direct_bytes_append)
    qed
  qed
qed

lemma direct_inv_run:
  assumes "handler_inv s tr es" "wiring_inv s" "direct_inv s tr"
  shows "direct_inv (fst (run opts s evs)) (tr @ snd (run opts s evs))"
  using assms
proof (induction evs arbitrary: s tr es)
  case Nil
  then show ?case by simp
next
  case (Cons e evs)
  let ?s1 = "fst (handle opts s e)" and ?a1 = "snd (handle opts s e)"
  have st: "handle opts s e = (?s1, ?a1)" by simp
  note h1 = inv_step [OF Cons.prems(1) st]
  note w1 = wiring_inv_step [OF Cons.prems(2), of opts e]
  note d1 = direct_inv_step [OF Cons.prems(1,2,3), of opts e]
  from Cons.IH [OF h1 w1 d1] show ?case by (simp add: split_beta)
qed

text \<open>
  Claim C4, as the code has it. The handler emits \<^verbatim>\<open>end\<close> through the completion callback
  of the Content-Length Meter only: in every request \<^verbatim>\<open>end\<close> has been emitted once if the
  meter has been closed and not at all otherwise. Its count is the number of bytes that
  passed through the meter, which in a request that writes the head once is the number of
  bytes written to the response. The meter is closed by the end of the processor output
  piped through it (success), by a failing write to the response it is piped into (downstream
  failure) and by a processor error that reaches \<^verbatim>\<open>handleError\<close> when the latch is
  cleared, and by nothing else: not by a template error, after which \<^verbatim>\<open>end\<close> is never
  emitted, and not by the \<^verbatim>\<open>error\<close> event of the primary fragment, after which
  \<^verbatim>\<open>end\<close> is emitted only if one of the three closes the meter later. In a request that
  writes the head once, the bytes written to the response are those counted and the bytes of
  the bodies given to \<^verbatim>\<open>response.end\<close>.
\<close>

theorem end_emitted_when_meter_closes:
  assumes "processRequest opts sc es = (s, tr)"
  shows "end_count tr = (if meter_ended s then 1 else 0)
       \<and> (\<forall>n. Emit_end n \<in> set tr \<longrightarrow>
              n = meter_count s \<and> (head_count tr \<le> 1 \<longrightarrow> n = response_bytes s))
       \<and> (meter_ended (fst (handle opts s ev)) \<longleftrightarrow> meter_ended s \<or> closes s ev)
       \<and> ((\<exists>e. templatePromise s = Some (Inl e)) \<longrightarrow> \<not> meter_ended s \<and> end_count tr = 0)
       \<and> (head_count tr \<le> 1 \<longrightarrow> response_bytes s = meter_count s + direct_bytes tr)"
proof -
  from inv_processRequest [OF assms(1)] obtain a where a: "tr = Emit_start # a"
    and r: "run opts (initial_state sc) es = (s, a)" and hi: "handler_inv s a es" by blast
  have m0: "meter_inv (initial_state sc) []"
    by (simp add: meter_inv_def initial_state_def end_count_def)
  have b0: "bytes_inv (initial_state sc) []"
    by (simp add: bytes_inv_def initial_state_def)
  from meter_inv_run [OF m0 r] have m: "meter_inv s a" by simp
  have w: "wiring_inv s"
    using wiring_inv_run [OF wiring_inv_initial, of opts sc es] r by simp
  have e: "end_count tr = end_count a" "head_count tr = head_count a" "direct_bytes tr = direct_bytes a"
    "\<And>n. Emit_end n \<in> set tr \<longleftrightarrow> Emit_end n \<in> set a"
    unfolding a by (auto simp: end_count_def head_count_def)
  have c1: "end_count a = (if meter_ended s then 1 else 0)"
    and c2: "\<forall>n. Emit_end n \<in> set a \<longrightarrow> n = meter_count s"
    using m by (simp_all add: meter_inv_def)
  have tl: "templatePromise s = None \<longrightarrow> shouldWriteHead s"
    using w by (simp add: wiring_inv_def)
  have c3: "meter_ended (fst (handle opts s ev)) \<longleftrightarrow> meter_ended s \<or> closes s ev"
    using meter_closed_iff [OF tl] .
  have c4: "(\<exists>e. templatePromise s = Some (Inl e)) \<longrightarrow> \<not> meter_ended s \<and> end_count a = 0"
  proof
    assume "\<exists>e. templatePromise s = Some (Inl e)"
    then have "\<not> wired s" using w by (auto simp: wiring_inv_def)
    then have "\<not> meter_ended s" using w by (simp add: wiring_inv_def)
    with c1 show "\<not> meter_ended s \<and> end_count a = 0" by simp
  qed
  have c5: "head_count a \<le> 1 \<longrightarrow> response_bytes s = meter_count s + direct_bytes a"
  proof
    assume "head_count a \<le> 1"
    then have "head_count ([] @ a) \<le> 1" by simp
    from bytes_inv_run [OF handler_inv_initial b0 r this]
    show "response_bytes s = meter_count s + direct_bytes a" by (simp add: bytes_inv_def)
  qed
  have di: "direct_inv s a"
    using direct_inv_run [OF handler_inv_initial wiring_inv_initial direct_inv_initial, of opts sc es] r
    by simp
  have c6: "\<forall>n. Emit_end n \<in> set a \<longrightarrow>
              n = meter_count s \<and> (head_count a \<le> 1 \<longrightarrow> n = response_bytes s)"
  proof (intro allI impI conjI)
    fix n assume n: "Emit_end n \<in> set a"
    from n c2 show "n = meter_count s" by simp
    from n have "end_count a \<noteq> 0" using end_count_zero [of a n] by auto
    with c1 have "meter_ended s" by (simp split: if_splits)
    with di have z: "direct_bytes a = 0" by (auto simp: direct_inv_def)
    assume "head_count a \<le> 1"
    with c5 z have "response_bytes s = meter_count s" by simp
    with n c2 show "n = response_bytes s" by simp
  qed
  show ?thesis
    unfolding e using c1 c6 c3 c4 c5 by blast
qed

theorem end_emitted_when_meter_closes_witness:
  "end_count (snd (processRequest
        \<lparr> filterResponseHeaders = None, maxAssetLinks = 1, LinkHeader_parse = (\<lambda>l. []),
          the_request = \<lparr> req_headers = Some [] \<rparr> \<rparr> 0
        [Template_settled (Inr [''<html>'']), Context_settled (Inr []),
         Processor_finish, Processor_data 6, Processor_end])) = 1
   \<and> Emit_end 6 \<in> set (snd (processRequest
        \<lparr> filterResponseHeaders = None, maxAssetLinks = 1, LinkHeader_parse = (\<lambda>l. []),
          the_request = \<lparr> req_headers = Some [] \<rparr> \<rparr> 0
        [Template_settled (Inr [''<html>'']), Context_settled (Inr []),
         Processor_finish, Processor_data 6, Processor_end]))
   \<and> response_bytes (fst (processRequest
        \<lparr> filterResponseHeaders = None, maxAssetLinks = 1, LinkHeader_parse = (\<lambda>l. []),
          the_request = \<lparr> req_headers = Some [] \<rparr> \<rparr> 0
        [Template_settled (Inr [''<html>'']), Context_settled (Inr []),
         Processor_finish, Processor_data 6, Processor_end])) = 6
   \<and> meter_ended (fst (handle
        \<lparr> filterResponseHeaders = None, maxAssetLinks = 1, LinkHeader_parse = (\<lambda>l. []),
          the_request = \<lparr> req_headers = Some [] \<rparr> \<rparr>
        (fst (processRequest
           \<lparr> filterResponseHeaders = None, maxAssetLinks = 1, LinkHeader_parse = (\<lambda>l. []),
             the_request = \<lparr> req_headers = Some [] \<rparr> \<rparr> 0
           [Template_settled (Inr [''<html>'']), Context_settled (Inr []),
            Processor_finish, Processor_data 4]))
        (Downstream_fails \<lparr> code = None, presentable = None \<rparr>)))
   \<and> end_count (snd (processRequest
        \<lparr> filterResponseHeaders = None, maxAssetLinks = 1, LinkHeader_parse = (\<lambda>l. []),
          the_request = \<lparr> req_headers = Some [] \<rparr> \<rparr> 0
        [Template_settled (Inl \<lparr> code = Some TEMPLATE_NOT_FOUND, presentable = None \<rparr>),
         Context_settled (Inr []), Processor_finish, Processor_end])) = 0"
proof -
  let ?o = "\<lparr> filterResponseHeaders = None, maxAssetLinks = 1, LinkHeader_parse = (\<lambda>l::string. []),
          the_request = \<lparr> req_headers = Some [] \<rparr> \<rparr>"
  let ?p = "processRequest ?o 0 [Template_settled (Inr [''<html>'']), Context_settled (Inr []),
         Processor_finish, Processor_data 6, Processor_end]"
  let ?q = "processRequest ?o 0 [Template_settled (Inr [''<html>'']), Context_settled (Inr []),
         Processor_finish, Processor_data 4]"
  let ?t = "processRequest ?o 0
        [Template_settled (Inl \<lparr> code = Some TEMPLATE_NOT_FOUND, presentable = None \<rparr>),
         Context_settled (Inr []), Processor_finish, Processor_end]"
  let ?ev = "Downstream_fails \<lparr> code = None, presentable = None \<rparr>"
  define s where "s = fst ?p"
  define tr where "tr = snd ?p"
  define s2 where "s2 = fst ?q"
  define tr2 where "tr2 = snd ?q"
  define s3 where "s3 = fst ?t"
  define tr3 where "tr3 = snd ?t"
  have pr: "?p = (s, tr)" by (simp add: s_def tr_def)
  have pq: "?q = (s2, tr2)" by (simp add: s2_def tr2_def)
  have pt: "?t = (s3, tr3)" by (simp add: s3_def tr3_def)
  have m: "meter_ended s" unfolding s_def by code_simp
  have e: "Emit_end 6 \<in> set tr" unfolding tr_def by code_simp
  have h: "head_count tr \<le> 1" unfolding tr_def by code_simp
  have d: "direct_bytes tr = 0" unfolding tr_def by code_simp
  have cl: "closes s2 ?ev" unfolding s2_def by code_simp
  have "templatePromise s3 = Some (Inl \<lparr> code = Some TEMPLATE_NOT_FOUND, presentable = None \<rparr>)"
    unfolding s3_def by code_simp
  then have tf: "\<exists>e. templatePromise s3 = Some (Inl e)" by blast
  note w = end_emitted_when_meter_closes [OF pr, of ?ev]
  note w2 = end_emitted_when_meter_closes [OF pq, of ?ev]
  note w3 = end_emitted_when_meter_closes [OF pt, of ?ev]
  from w m have c1: "end_count tr = 1" by simp
  from w e have c2: "meter_count s = 6" by auto
  from w h have "response_bytes s = meter_count s + direct_bytes tr" by simp
  with c2 d have c3: "response_bytes s = 6" by simp
  from w2 cl have c4: "meter_ended (fst (handle ?o s2 ?ev))" by simp
  from w3 tf have c5: "end_count tr3 = 0" by simp
  show ?thesis
    using c1 e c3 c4 c5 unfolding s_def tr_def s2_def s3_def tr3_def by (simp only: simp_thms)
qed

text \<open>
  Against the claim as the spec words it: when the template is not found the response is
  ended with four bytes of body and no \<^verbatim>\<open>end\<close> event is emitted; when the primary fragment
  emits \<^verbatim>\<open>error\<close> the response is ended and no \<^verbatim>\<open>end\<close> event is emitted. And when
  the primary fragment emits \<^verbatim>\<open>error\<close> after it has responded, the listener writes a
  second head and ends the response while the processor output is still piped: the meter
  counts eight bytes, of which five were written to the response.
\<close>

theorem end_emitted_when_meter_closes_counterexample:
  "response_ended (fst (processRequest
        \<lparr> filterResponseHeaders = None, maxAssetLinks = 1, LinkHeader_parse = (\<lambda>l. []),
          the_request = \<lparr> req_headers = Some [] \<rparr> \<rparr> 0
        [Template_settled (Inl \<lparr> code = Some TEMPLATE_NOT_FOUND, presentable = Some ''gone'' \<rparr>)]))
   \<and> response_bytes (fst (processRequest
        \<lparr> filterResponseHeaders = None, maxAssetLinks = 1, LinkHeader_parse = (\<lambda>l. []),
          the_request = \<lparr> req_headers = Some [] \<rparr> \<rparr> 0
        [Template_settled (Inl \<lparr> code = Some TEMPLATE_NOT_FOUND, presentable = Some ''gone'' \<rparr>)])) = 4
   \<and> end_count (snd (processRequest
        \<lparr> filterResponseHeaders = None, maxAssetLinks = 1, LinkHeader_parse = (\<lambda>l. []),
          the_request = \<lparr> req_headers = Some [] \<rparr> \<rparr> 0
        [Template_settled (Inl \<lparr> code = Some TEMPLATE_NOT_FOUND, presentable = Some ''gone'' \<rparr>)])) = 0
   \<and> response_ended (fst (processRequest
        \<lparr> filterResponseHeaders = None, maxAssetLinks = 1, LinkHeader_parse = (\<lambda>l. []),
          the_request = \<lparr> req_headers = Some [] \<rparr> \<rparr> 0
        [Template_settled (Inr []), Context_settled (Inr []),
         Fragment_found \<lparr> fid = 1, attributes = \<lparr> primary = True, url = ''http://a/'' \<rparr> \<rparr>,
         Fragment_emits 1 (Ev_error \<lparr> code = None, presentable = None \<rparr>),
         Processor_finish, Processor_end]))
   \<and> end_count (snd (processRequest
        \<lparr> filterResponseHeaders = None, maxAssetLinks = 1, LinkHeader_parse = (\<lambda>l. []),
          the_request = \<lparr> req_headers = Some [] \<rparr> \<rparr> 0
        [Template_settled (Inr []), Context_settled (Inr []),
         Fragment_found \<lparr> fid = 1, attributes = \<lparr> primary = True, url = ''http://a/'' \<rparr> \<rparr>,
         Fragment_emits 1 (Ev_error \<lparr> code = None, presentable = None \<rparr>),
         Processor_finish, Processor_end])) = 0
   \<and> filter is_end (snd (processRequest
        \<lparr> filterResponseHeaders = None, maxAssetLinks = 1, LinkHeader_parse = (\<lambda>l. []),
          the_request = \<lparr> req_headers = Some [] \<rparr> \<rparr> 0
        [Template_settled (Inr []), Context_settled (Inr []),
         Fragment_found \<lparr> fid = 1, attributes = \<lparr> primary = True, url = ''http://a/'' \<rparr> \<rparr>,
         Fragment_emits 1 (Ev_response 200 []), Processor_data 5,
         Fragment_emits 1 (Ev_error \<lparr> code = None, presentable = None \<rparr>),
         Processor_data 3, Processor_end])) = [Emit_end 8]
   \<and> response_bytes (fst (processRequest
        \<lparr> filterResponseHeaders = None, maxAssetLinks = 1, LinkHeader_parse = (\<lambda>l. []),
          the_request = \<lparr> req_headers = Some [] \<rparr> \<rparr> 0
        [Template_settled (Inr []), Context_settled (Inr []),
         Fragment_found \<lparr> fid = 1, attributes = \<lparr> primary = True, url = ''http://a/'' \<rparr> \<rparr>,
         Fragment_emits 1 (Ev_response 200 []), Processor_data 5,
         Fragment_emits 1 (Ev_error \<lparr> code = None, presentable = None \<rparr>),
         Processor_data 3, Processor_end])) = 5"
  by code_simp

end
